theory Spec2Isabelle
  imports Main "HOL-Library.AList"
begin

section \<open>Strings, symbols and grammars\<close>

text \<open>
  A Python \<open>str\<close> is a sequence of Unicode code points, so a string is a list of code
  points (natural numbers); \<open>str\<close> turns an ASCII literal into one. The epsilon sign of
  the sources is the one-character string U+03B5.

  A grammar is a Python \<open>dict\<close> from variable names to lists of rules, a rule being a
  list of symbols. Dictionaries keep insertion order and the order is observable
  (iteration over \<open>items()\<close>), so a dictionary is an association list; assignment to a
  key is \<open>AList.update\<close> (in place when the key is present, appended otherwise).
\<close>

type_synonym pystr = "nat list"
type_synonym rule = "pystr list"
type_synonym grammar = "(pystr \<times> rule list) list"

definition str :: "string \<Rightarrow> pystr" where
  "str s = map of_char s"

definition eps :: pystr where
  "eps = [949]"

datatype py_error = ValueError | KeyError | IndexError | CFGError

text \<open>\<open>d.get(k, [])\<close>\<close>

definition get_rules :: "grammar \<Rightarrow> pystr \<Rightarrow> rule list" where
  "get_rules g k = (case map_of g k of None \<Rightarrow> [] | Some rs \<Rightarrow> rs)"

text \<open>\<open>d.setdefault(k, [])\<close>, for its effect on the dictionary.\<close>

definition setdefault :: "grammar \<Rightarrow> pystr \<Rightarrow> grammar" where
  "setdefault d k = (case map_of d k of None \<Rightarrow> AList.update k [] d | Some _ \<Rightarrow> d)"

text \<open>
  \<open>d[k].append(r)\<close> at a place where the key \<open>k\<close> has just been stored, and
  \<open>d.setdefault(k, []).append(r)\<close>.
\<close>

definition dict_append :: "grammar \<Rightarrow> pystr \<Rightarrow> rule \<Rightarrow> grammar" where
  "dict_append d k r = AList.update k (get_rules d k @ [r]) d"

text \<open>Python's \<open>str(n)\<close> for a non-negative integer: its decimal digits.\<close>

fun show_nat :: "nat \<Rightarrow> pystr" where
  "show_nat n = (if n < 10 then [48 + n] else show_nat (n div 10) @ [48 + n mod 10])"

declare show_nat.simps [simp del]

section \<open>The CNF converter (logic/cnf\_converter.py)\<close>

text \<open>
  \<open>is_variable\<close> of the converter: \<open>sym and sym[0].isupper()\<close>. The table behind
  \<open>str.isupper\<close> is part of the Python runtime, not of the repository: it is the
  parameter \<open>up\<close>, a predicate on code points. \<open>ascii_isupper\<close> is that table on
  the ASCII range and on the epsilon sign, where it is used for concrete runs.
\<close>

definition is_variable :: "(nat \<Rightarrow> bool) \<Rightarrow> pystr \<Rightarrow> bool" where
  "is_variable up x = (x \<noteq> [] \<and> up (hd x))"

definition ascii_isupper :: "nat \<Rightarrow> bool" where
  "ascii_isupper c = (65 \<le> c \<and> c \<le> 90)"

subsection \<open>Fresh variables\<close>

definition X_name :: "nat \<Rightarrow> pystr" where
  "X_name n = str ''X'' @ show_nat n"

definition digits_val :: "pystr \<Rightarrow> nat" where
  "digits_val ds = foldl (\<lambda>a d. 10 * a + (d - 48)) 0 ds"

lemma digits_val_show_nat: "digits_val (show_nat n) = n"
proof (induction n rule: show_nat.induct)
  case (1 n)
  show ?case
  proof (cases "n < 10")
    case True
    then show ?thesis by (simp add: show_nat.simps [of n] digits_val_def)
  next
    case False
    with 1 have "digits_val (show_nat (n div 10)) = n div 10" by simp
    with False show ?thesis
      by (simp add: show_nat.simps [of n] digits_val_def)
  qed
qed

lemma inj_X_name: "inj X_name"
proof (rule injI)
  fix m n assume "X_name m = X_name n"
  then have "show_nat m = show_nat n" by (simp add: X_name_def)
  then have "digits_val (show_nat m) = digits_val (show_nat n)" by simp
  then show "m = n" by (simp add: digits_val_show_nat)
qed

lemma finite_X_names: "finite {n. X_name n \<in> set vars}"
proof -
  have "finite (X_name -` set vars)"
    by (rule finite_vimageI [OF _ inj_X_name]) simp
  then show ?thesis by (simp add: vimage_def)
qed

text \<open>
  \<open>fresh_var\<close>: the counter \<open>c\<close> is the next value of \<open>itertools.count(1)\<close>; the
  loop runs until a name outside \<open>all_vars\<close> is found, adds it and returns it.
\<close>

function fresh_var :: "nat \<Rightarrow> pystr list \<Rightarrow> pystr \<times> nat \<times> pystr list" where
  "fresh_var c vars =
     (let v = X_name c in
      if v \<notin> set vars then (v, Suc c, v # vars) else fresh_var (Suc c) vars)"
  by pat_completeness auto
termination
proof (relation "measure (\<lambda>(c, vars). card {n. c \<le> n \<and> X_name n \<in> set vars})")
  show "wf (measure (\<lambda>(c, vars). card {n. c \<le> n \<and> X_name n \<in> set vars}))" by simp
next
  fix c :: nat and vars :: "pystr list" and v
  assume v: "v = X_name c" and "\<not> v \<notin> set vars"
  then have mem: "X_name c \<in> set vars" by simp
  have fin: "finite {n. c \<le> n \<and> X_name n \<in> set vars}"
    by (rule finite_subset [OF _ finite_X_names [of vars]]) auto
  have "c \<in> {n. c \<le> n \<and> X_name n \<in> set vars}"
    and "c \<notin> {n. Suc c \<le> n \<and> X_name n \<in> set vars}"
    and "{n. Suc c \<le> n \<and> X_name n \<in> set vars} \<subseteq> {n. c \<le> n \<and> X_name n \<in> set vars}"
    using mem by auto
  then have "{n. Suc c \<le> n \<and> X_name n \<in> set vars} \<subset> {n. c \<le> n \<and> X_name n \<in> set vars}"
    by blast
  then have "card {n. Suc c \<le> n \<and> X_name n \<in> set vars} < card {n. c \<le> n \<and> X_name n \<in> set vars}"
    by (rule psubset_card_mono [OF fin])
  then show "((Suc c, vars), (c, vars)) \<in> measure (\<lambda>(c, vars). card {n. c \<le> n \<and> X_name n \<in> set vars})"
    by simp
qed

declare fresh_var.simps [simp del]

subsection \<open>Nullable variables\<close>

text \<open>
  One rule of the scan: the rule is the epsilon rule, or
  \<open>all((sym in nullable) for sym in rule if is_variable(sym))\<close>. The generator
  ranges over the variable symbols of the rule only.
\<close>

definition rule_nullable :: "(nat \<Rightarrow> bool) \<Rightarrow> pystr set \<Rightarrow> rule \<Rightarrow> bool" where
  "rule_nullable up nullable r =
     (r = [eps] \<or> list_all (\<lambda>x. x \<in> nullable) (filter (is_variable up) r))"

text \<open>One run of the \<open>for A, rules in grammar.items()\<close> loop, on the pair (nullable, changed).\<close>

fun nullable_pass :: "(nat \<Rightarrow> bool) \<Rightarrow> grammar \<Rightarrow> pystr set \<times> bool \<Rightarrow> pystr set \<times> bool" where
  "nullable_pass up [] st = st"
| "nullable_pass up ((A, rules) # g) (nullable, changed) =
     (if A \<in> nullable then nullable_pass up g (nullable, changed)
      else if list_ex (rule_nullable up nullable) rules
           then nullable_pass up g (insert A nullable, True)
           else nullable_pass up g (nullable, changed))"

lemma nullable_pass_grows:
  "nullable_pass up g (n, c) = (n', c') \<Longrightarrow>
     n \<subseteq> n' \<and> n' \<subseteq> n \<union> fst ` set g \<and> (c' \<longrightarrow> c \<or> n \<subset> n')"
proof (induction g arbitrary: n c)
  case Nil
  then show ?case by simp
next
  case (Cons p g)
  obtain A rules where p: "p = (A, rules)" by (cases p)
  show ?case
  proof (cases "A \<notin> n \<and> list_ex (rule_nullable up n) rules")
    case True
    with Cons.prems p have "nullable_pass up g (insert A n, True) = (n', c')" by simp
    from Cons.IH [OF this] True p show ?thesis by auto
  next
    case False
    with Cons.prems p have "nullable_pass up g (n, c) = (n', c')" by (auto split: if_splits)
    from Cons.IH [OF this] p show ?thesis by auto
  qed
qed

text \<open>The \<open>while changed\<close> loop; its body runs at least once.\<close>

function nullable_loop :: "(nat \<Rightarrow> bool) \<Rightarrow> grammar \<Rightarrow> pystr set \<Rightarrow> pystr set" where
  "nullable_loop up g nullable =
     (case nullable_pass up g (nullable, False) of
        (nullable', changed) \<Rightarrow> if changed then nullable_loop up g nullable' else nullable')"
  by pat_completeness auto
termination
proof (relation "measure (\<lambda>(up, g, n). card (fst ` set g - n))")
  show "wf (measure (\<lambda>(up, g, n). card (fst ` set g - n)))" by simp
next
  fix up :: "nat \<Rightarrow> bool" and g :: grammar and nullable x :: "pystr set" 
    and n' :: "pystr set" and changed :: bool
  assume "(n', changed) = nullable_pass up g (nullable, False)" and changed
  then have "nullable_pass up g (nullable, False) = (n', True)" by simp
  from nullable_pass_grows [OF this]
  have sub: "nullable \<subset> n'" and bound: "n' \<subseteq> nullable \<union> fst ` set g" by auto
  have "fst ` set g - n' \<subset> fst ` set g - nullable"
    using sub bound by auto
  then have "card (fst ` set g - n') < card (fst ` set g - nullable)"
    by (intro psubset_card_mono) auto
  then show "((up, g, n'), (up, g, nullable)) \<in> measure (\<lambda>(up, g, n). card (fst ` set g - n))"
    by simp
qed

declare nullable_loop.simps [simp del]

subsection \<open>Epsilon elimination\<close>

text \<open>
  The subsets of a rule: each symbol is kept, and a nullable variable is also dropped.
\<close>

definition subsets_step :: "(nat \<Rightarrow> bool) \<Rightarrow> pystr set \<Rightarrow> pystr \<Rightarrow> rule list \<Rightarrow> rule list" where
  "subsets_step up nullable x subsets =
     concat (map (\<lambda>s. if is_variable up x \<and> x \<in> nullable then [s @ [x], s] else [s @ [x]]) subsets)"

definition rule_subsets :: "(nat \<Rightarrow> bool) \<Rightarrow> pystr set \<Rightarrow> rule \<Rightarrow> rule list" where
  "rule_subsets up nullable r = fold (subsets_step up nullable) r [[]]"

definition add_subset :: "rule \<Rightarrow> rule list \<Rightarrow> rule list" where
  "add_subset s acc = (if length s = 0 then acc else if s \<notin> set acc then acc @ [s] else acc)"

definition eps_rule :: "(nat \<Rightarrow> bool) \<Rightarrow> pystr set \<Rightarrow> rule \<Rightarrow> rule list \<Rightarrow> rule list" where
  "eps_rule up nullable r acc =
     (if r = [eps] then acc else fold add_subset (rule_subsets up nullable r) acc)"

text \<open>
  \<open>new_grammar\<close> starts with an empty list for every key, and the list of a key is
  filled while that key is visited; the keys of a dictionary are distinct, so the new
  dictionary is the old one with every rule list rebuilt.
\<close>

definition eliminate_epsilon :: "(nat \<Rightarrow> bool) \<Rightarrow> pystr set \<Rightarrow> grammar \<Rightarrow> grammar" where
  "eliminate_epsilon up nullable g =
     map (\<lambda>(A, rules). (A, fold (eps_rule up nullable) rules [])) g"

subsection \<open>The new start variable\<close>

lemma key_length_le: "s \<in> fst ` set g \<Longrightarrow> length s \<le> sum_list (map (length \<circ> fst) g)"
  by (induction g) fastforce+

function new_start_name :: "grammar \<Rightarrow> pystr \<Rightarrow> pystr" where
  "new_start_name g s = (if s \<in> fst ` set g then new_start_name g (s @ [39]) else s)"
  by pat_completeness auto
termination
proof (relation "measure (\<lambda>(g, s). Suc (sum_list (map (length \<circ> fst) g)) - length s)")
  show "wf (measure (\<lambda>(g, s). Suc (sum_list (map (length \<circ> fst) g)) - length s))" by simp
next
  fix g :: grammar and s :: pystr
  assume "s \<in> fst ` set g"
  then have "length s \<le> sum_list (map (length \<circ> fst) g)" by (rule key_length_le)
  then show "((g, s @ [39]), (g, s)) \<in> measure (\<lambda>(g, s). Suc (sum_list (map (length \<circ> fst) g)) - length s)"
    by simp
qed

declare new_start_name.simps [simp del]

definition new_start ::
  "grammar \<Rightarrow> pystr set \<Rightarrow> pystr \<Rightarrow> pystr list \<Rightarrow> grammar \<times> pystr \<times> pystr list" where
  "new_start g nullable start_var vars =
     (if start_var \<in> nullable
      then (let S_new = new_start_name g (start_var @ [39])
            in (AList.update S_new [[start_var], [eps]] g, S_new, S_new # vars))
      else (g, start_var, vars))"

subsection \<open>Unit productions\<close>

definition is_unit :: "(nat \<Rightarrow> bool) \<Rightarrow> rule \<Rightarrow> bool" where
  "is_unit up r = (length r = 1 \<and> is_variable up (hd r))"

text \<open>\<open>for rB in grammar.get(B, [])\<close>, on the pair (new\_prod[A], changed).\<close>

fun copy_rules :: "(nat \<Rightarrow> bool) \<Rightarrow> rule list \<Rightarrow> rule list \<times> bool \<Rightarrow> rule list \<times> bool" where
  "copy_rules up [] st = st"
| "copy_rules up (rB # rs) (np, changed) =
     (if \<not> is_unit up rB \<or> (length rB = 1 \<and> \<not> is_variable up (hd rB))
      then (if rB \<notin> set np then copy_rules up rs (np @ [rB], True)
            else copy_rules up rs (np, changed))
      else copy_rules up rs (np, changed))"

text \<open>\<open>if rule in new_prod[A]: new_prod[A].remove(rule); changed = True\<close>\<close>

fun remove_unit :: "rule \<Rightarrow> rule list \<times> bool \<Rightarrow> rule list \<times> bool" where
  "remove_unit r (np, changed) = (if r \<in> set np then (remove1 r np, True) else (np, changed))"

text \<open>\<open>for rule in rules\<close>, for the key \<open>A\<close>; \<open>g\<close> is the grammar before the pass.\<close>

fun unit_rules ::
  "(nat \<Rightarrow> bool) \<Rightarrow> grammar \<Rightarrow> pystr \<Rightarrow> rule list \<Rightarrow> rule list \<times> bool \<Rightarrow> rule list \<times> bool" where
  "unit_rules up g A [] st = st"
| "unit_rules up g A (r # rs) st =
     (if is_unit up r
      then (let B = hd r in
            if B = A then unit_rules up g A rs st
            else unit_rules up g A rs (remove_unit r (copy_rules up (get_rules g B) st)))
      else unit_rules up g A rs st)"

text \<open>
  \<open>for A, rules in grammar.items()\<close>: \<open>new_prod[A]\<close> starts as a copy of \<open>rules\<close>
  and is changed only while \<open>A\<close> is visited.
\<close>

fun unit_items :: "(nat \<Rightarrow> bool) \<Rightarrow> grammar \<Rightarrow> grammar \<Rightarrow> bool \<Rightarrow> grammar \<times> bool" where
  "unit_items up g [] changed = ([], changed)"
| "unit_items up g ((A, rules) # items) changed =
     (case unit_rules up g A rules (rules, changed) of
        (np, changed') \<Rightarrow>
          (case unit_items up g items changed' of
             (rest, changed'') \<Rightarrow> ((A, np) # rest, changed'')))"

definition unit_pass :: "(nat \<Rightarrow> bool) \<Rightarrow> grammar \<Rightarrow> grammar \<times> bool" where
  "unit_pass up g = unit_items up g g False"

lemma count_list_remove1:
  "count_list (remove1 r xs) u =
     (if u = r \<and> r \<in> set xs then count_list xs u - 1 else count_list xs u)"
  by (induction xs) auto

lemma copy_rules_count:
  "copy_rules up rs (np, ch) = (np', ch') \<Longrightarrow> is_unit up u \<Longrightarrow> count_list np' u = count_list np u"
proof (induction rs arbitrary: np ch)
  case Nil
  then show ?case by simp
next
  case (Cons rB rs)
  show ?case
  proof (cases "(\<not> is_unit up rB \<or> (length rB = 1 \<and> \<not> is_variable up (hd rB))) \<and> rB \<notin> set np")
    case True
    with Cons.prems have "copy_rules up rs (np @ [rB], True) = (np', ch')" by simp
    from Cons.IH [OF this Cons.prems(2)] have "count_list np' u = count_list (np @ [rB]) u" .
    moreover from True Cons.prems(2) have "rB \<noteq> u" by (auto simp: is_unit_def)
    ultimately show ?thesis by simp
  next
    case False
    with Cons.prems have "copy_rules up rs (np, ch) = (np', ch')" by (auto split: if_splits)
    from Cons.IH [OF this Cons.prems(2)] show ?thesis .
  qed
qed

lemma unit_rules_changed:
  "unit_rules up g A rs st = (np', ch') \<Longrightarrow> ch' \<Longrightarrow>
     snd st \<or> (\<exists>r\<in>set rs. is_unit up r \<and> hd r \<noteq> A)"
proof (induction rs arbitrary: st)
  case Nil
  then show ?case by simp
next
  case (Cons r rs)
  show ?case
  proof (cases "is_unit up r \<and> hd r \<noteq> A")
    case True
    then show ?thesis by auto
  next
    case False
    with Cons.prems have "unit_rules up g A rs st = (np', ch')" by (auto simp: Let_def split: if_splits)
    from Cons.IH [OF this Cons.prems(2)] show ?thesis by auto
  qed
qed

lemma unit_rules_no_units:
  "unit_rules up g A rs st = (np', ch') \<Longrightarrow>
   (\<forall>u. is_unit up u \<and> hd u \<noteq> A \<longrightarrow> count_list (fst st) u \<le> count_list rs u) \<Longrightarrow>
   \<forall>u\<in>set np'. \<not> (is_unit up u \<and> hd u \<noteq> A)"
proof (induction rs arbitrary: st)
  case Nil
  then have "\<forall>u. is_unit up u \<and> hd u \<noteq> A \<longrightarrow> count_list np' u = 0" by auto
  then show ?case by (auto simp: count_list_0_iff)
next
  case (Cons r rs)
  show ?case
  proof (cases "is_unit up r \<and> hd r \<noteq> A")
    case True
    obtain np1 ch1 where c: "copy_rules up (get_rules g (hd r)) (fst st, snd st) = (np1, ch1)"
      by (cases "copy_rules up (get_rules g (hd r)) (fst st, snd st)")
    define st2 where "st2 = remove_unit r (np1, ch1)"
    from Cons.prems(1) True c have run: "unit_rules up g A rs st2 = (np', ch')"
      by (simp add: st2_def Let_def)
    have "\<forall>u. is_unit up u \<and> hd u \<noteq> A \<longrightarrow> count_list (fst st2) u \<le> count_list rs u"
    proof (intro allI impI)
      fix u assume u: "is_unit up u \<and> hd u \<noteq> A"
      then have eq: "count_list np1 u = count_list (fst st) u"
        using copy_rules_count [OF c] by simp
      from Cons.prems(2) u have le: "count_list (fst st) u \<le> count_list (r # rs) u" by blast
      show "count_list (fst st2) u \<le> count_list rs u"
      proof (cases "r \<in> set np1")
        case True
        then have "fst st2 = remove1 r np1" by (simp add: st2_def)
        with eq le True show ?thesis by (auto simp: count_list_remove1)
      next
        case False
        then have f: "fst st2 = np1" by (simp add: st2_def)
        show ?thesis
        proof (cases "u = r")
          case True
          with False f show ?thesis by simp
        next
          case False
          with f eq le show ?thesis by simp
        qed
      qed
    qed
    from Cons.IH [OF run this] show ?thesis .
  next
    case False
    with Cons.prems(1) have run: "unit_rules up g A rs st = (np', ch')"
      by (auto simp: Let_def split: if_splits)
    have "\<forall>u. is_unit up u \<and> hd u \<noteq> A \<longrightarrow> count_list (fst st) u \<le> count_list rs u"
    proof (intro allI impI)
      fix u assume u: "is_unit up u \<and> hd u \<noteq> A"
      with False have "u \<noteq> r" by auto
      with Cons.prems(2) u show "count_list (fst st) u \<le> count_list rs u" by fastforce
    qed
    from Cons.IH [OF run this] show ?thesis .
  qed
qed

text \<open>The number of unit rules \<open>A \<rightarrow> B\<close> with \<open>B\<close> other than \<open>A\<close>.\<close>

definition unit_count :: "(nat \<Rightarrow> bool) \<Rightarrow> grammar \<Rightarrow> nat" where
  "unit_count up g =
     sum_list (map (\<lambda>(A, rules). length (filter (\<lambda>r. is_unit up r \<and> hd r \<noteq> A) rules)) g)"

lemma unit_items_result:
  "unit_items up g items ch = (g', ch') \<Longrightarrow>
     unit_count up g' = 0 \<and> (ch' \<longrightarrow> ch \<or> 0 < unit_count up items)"
proof (induction items arbitrary: ch g' ch')
  case Nil
  then show ?case by (auto simp: unit_count_def)
next
  case (Cons p items)
  obtain A rules where p: "p = (A, rules)" by (cases p)
  obtain np c1 where r1: "unit_rules up g A rules (rules, ch) = (np, c1)"
    by (cases "unit_rules up g A rules (rules, ch)")
  obtain rest c2 where r2: "unit_items up g items c1 = (rest, c2)"
    by (cases "unit_items up g items c1")
  from Cons.prems p r1 r2 have g': "g' = (A, np) # rest" and ch': "ch' = c2" by auto
  from Cons.IH [OF r2] have rest0: "unit_count up rest = 0"
    and c2: "c2 \<longrightarrow> c1 \<or> 0 < unit_count up items" by auto
  from unit_rules_no_units [OF r1] have "\<forall>u\<in>set np. \<not> (is_unit up u \<and> hd u \<noteq> A)" by simp
  then have "filter (\<lambda>r. is_unit up r \<and> hd r \<noteq> A) np = []" by (auto simp: filter_empty_conv)
  with rest0 g' have zero: "unit_count up g' = 0" by (simp add: unit_count_def)
  have "ch' \<longrightarrow> ch \<or> 0 < unit_count up (p # items)"
  proof
    assume ch'
    with ch' c2 have "c1 \<or> 0 < unit_count up items" by simp
    then show "ch \<or> 0 < unit_count up (p # items)"
    proof
      assume c1
      from unit_rules_changed [OF r1 this]
      have "ch \<or> (\<exists>r\<in>set rules. is_unit up r \<and> hd r \<noteq> A)" by simp
      then show ?thesis
      proof
        assume ch then show ?thesis by simp
      next
        assume "\<exists>r\<in>set rules. is_unit up r \<and> hd r \<noteq> A"
        then have "filter (\<lambda>r. is_unit up r \<and> hd r \<noteq> A) rules \<noteq> []"
          by (auto simp: filter_empty_conv)
        then show ?thesis using p by (simp add: unit_count_def)
      qed
    next
      assume "0 < unit_count up items"
      then show ?thesis by (simp add: unit_count_def)
    qed
  qed
  with zero show ?case by simp
qed

text \<open>The \<open>while changed\<close> loop of step 3; its body runs at least once.\<close>

function unit_loop :: "(nat \<Rightarrow> bool) \<Rightarrow> grammar \<Rightarrow> grammar" where
  "unit_loop up g =
     (case unit_pass up g of
        (new_prod, changed) \<Rightarrow> if changed then unit_loop up new_prod else new_prod)"
  by pat_completeness auto
termination
proof (relation "measure (\<lambda>(up, g). unit_count up g)")
  show "wf (measure (\<lambda>(up, g). unit_count up g))" by simp
next
  fix up :: "nat \<Rightarrow> bool" and g new_prod :: grammar and changed :: bool
  assume "(new_prod, changed) = unit_pass up g" and changed
  then have "unit_items up g g False = (new_prod, True)" by (simp add: unit_pass_def)
  from unit_items_result [OF this]
  have "unit_count up new_prod < unit_count up g" by simp
  then show "((up, new_prod), (up, g)) \<in> measure (\<lambda>(up, g). unit_count up g)" by simp
qed

declare unit_loop.simps [simp del]

subsection \<open>Terminal lifting and binarization\<close>

text \<open>
  The state the closures \<open>fresh_var\<close> and \<open>get_term_var\<close> and the loop of step 5
  share: the counter, \<open>all_vars\<close>, the two translation tables and \<open>final\<close>.
\<close>

record cnf_state =
  counter :: nat
  all_vars :: "pystr list"
  term_map :: "(pystr \<times> pystr) list"
  nonterm_map :: "(pystr \<times> pystr) list"
  final :: grammar

definition get_term_var :: "pystr \<Rightarrow> cnf_state \<Rightarrow> pystr \<times> cnf_state" where
  "get_term_var t st =
     (case map_of (term_map st) t of
        None \<Rightarrow>
          (case fresh_var (counter st) (all_vars st) of
             (v, c, vars) \<Rightarrow>
               (v, st\<lparr>counter := c, all_vars := vars,
                      term_map := AList.update t v (term_map st),
                      nonterm_map := AList.update v t (nonterm_map st)\<rparr>))
      | Some v \<Rightarrow> (v, st))"

text \<open>\<open>if not is_variable(s): s = get_term_var(s)\<close>\<close>

definition lift :: "(nat \<Rightarrow> bool) \<Rightarrow> pystr \<Rightarrow> cnf_state \<Rightarrow> pystr \<times> cnf_state" where
  "lift up s st = (if \<not> is_variable up s then get_term_var s st else (s, st))"

text \<open>
  The rest of the loop body for a rule that is neither a single terminal nor of length
  two: the \<open>while len(chain) > 2\<close> loop, then \<open>left, right = chain\<close>, which raises
  ValueError unless two symbols are left.
\<close>

fun bin_chain :: "(nat \<Rightarrow> bool) \<Rightarrow> pystr \<Rightarrow> rule \<Rightarrow> cnf_state \<Rightarrow> py_error + cnf_state" where
  "bin_chain up current (s # s2 # s3 # chain) st =
     (case lift up s st of
        (s', st1) \<Rightarrow>
          (case fresh_var (counter st1) (all_vars st1) of
             (new_var, c, vars) \<Rightarrow>
               bin_chain up new_var (s2 # s3 # chain)
                 (st1\<lparr>counter := c, all_vars := vars,
                      final := setdefault (dict_append (final st1) current [s', new_var]) new_var\<rparr>)))"
| "bin_chain up current [left, right] st =
     (case lift up left st of
        (l, st1) \<Rightarrow>
          (case lift up right st1 of
             (r, st2) \<Rightarrow> Inr (st2\<lparr>final := dict_append (final st2) current [l, r]\<rparr>)))"
| "bin_chain up current chain st = Inl ValueError"

definition bin_rule :: "(nat \<Rightarrow> bool) \<Rightarrow> pystr \<Rightarrow> rule \<Rightarrow> cnf_state \<Rightarrow> py_error + cnf_state" where
  "bin_rule up A r st =
     (if length r = 1 \<and> \<not> is_variable up (hd r)
      then Inr (st\<lparr>final := dict_append (final st) A [hd r]\<rparr>)
      else if length r = 2
      then (case lift up (r ! 0) st of
              (s1, st1) \<Rightarrow>
                (case lift up (r ! 1) st1 of
                   (s2, st2) \<Rightarrow> Inr (st2\<lparr>final := dict_append (final st2) A [s1, s2]\<rparr>)))
      else bin_chain up A r st)"

fun bin_rules :: "(nat \<Rightarrow> bool) \<Rightarrow> pystr \<Rightarrow> rule list \<Rightarrow> cnf_state \<Rightarrow> py_error + cnf_state" where
  "bin_rules up A [] st = Inr st"
| "bin_rules up A (r # rs) st =
     (case bin_rule up A r st of Inl e \<Rightarrow> Inl e | Inr st' \<Rightarrow> bin_rules up A rs st')"

text \<open>\<open>for A, rules in grammar.items(): final[A] = []; for rule in rules: ...\<close>\<close>

fun binarize :: "(nat \<Rightarrow> bool) \<Rightarrow> grammar \<Rightarrow> cnf_state \<Rightarrow> py_error + cnf_state" where
  "binarize up [] st = Inr st"
| "binarize up ((A, rules) # g) st =
     (case bin_rules up A rules (st\<lparr>final := AList.update A [] (final st)\<rparr>) of
        Inl e \<Rightarrow> Inl e
      | Inr st' \<Rightarrow> binarize up g st')"

text \<open>Step 6: \<open>for v, t in nonterm_map.items()\<close>, then the empty rule lists are dropped.\<close>

definition add_wrappers :: "(pystr \<times> pystr) list \<Rightarrow> grammar \<Rightarrow> grammar" where
  "add_wrappers ntm fin = fold (\<lambda>(v, t) f. dict_append (setdefault f v) v [t]) ntm fin"

definition drop_empty :: "grammar \<Rightarrow> grammar" where
  "drop_empty fin = filter (\<lambda>(A, rules). length rules > 0) fin"

subsection \<open>convert\_to\_cnf\<close>

text \<open>The dictionary that \<open>convert_to_cnf\<close> returns, by its four keys.\<close>

record cnf_result =
  r_grammar :: grammar
  r_start_var :: pystr
  r_term_map :: "(pystr \<times> pystr) list"
  r_nonterm_map :: "(pystr \<times> pystr) list"

text \<open>The nullable set of the first loop, which starts from the empty set.\<close>

definition nullable_set :: "(nat \<Rightarrow> bool) \<Rightarrow> grammar \<Rightarrow> pystr set" where
  "nullable_set up g = nullable_loop up g {}"

definition convert_to_cnf :: "(nat \<Rightarrow> bool) \<Rightarrow> grammar \<Rightarrow> pystr \<Rightarrow> py_error + cnf_result" where
  "convert_to_cnf up grammar0 start_var =
     (let nullable = nullable_set up grammar0;
          g1 = eliminate_epsilon up nullable grammar0
      in case new_start g1 nullable start_var (map fst grammar0) of
           (g2, current_start, vars) \<Rightarrow>
             (case binarize up (unit_loop up g2)
                     \<lparr>counter = 1, all_vars = vars, term_map = [], nonterm_map = [], final = []\<rparr> of
                Inl e \<Rightarrow> Inl e
              | Inr st \<Rightarrow>
                  Inr \<lparr>r_grammar = drop_empty (add_wrappers (nonterm_map st) (final st)),
                       r_start_var = current_start,
                       r_term_map = term_map st,
                       r_nonterm_map = nonterm_map st\<rparr>))"

section \<open>The recognizer (logic/cyk.py)\<close>

text \<open>
  An entry of a cell is \<open>[A, tok]\<close> or \<open>[A, k, left_entry, right_entry]\<close>;
  \<open>entry[0]\<close> is its variable. The table is a list of rows of cells, as in the source.
\<close>

datatype entry = Term pystr pystr | Bin pystr nat entry entry

fun entry_name :: "entry \<Rightarrow> pystr" where
  "entry_name (Term A tok) = A"
| "entry_name (Bin A k left_ent right_ent) = A"

type_synonym cyk_table = "entry list list list"

text \<open>\<open>[entry for entry in cell if entry[0] == B]\<close>\<close>

definition matches :: "pystr \<Rightarrow> entry list \<Rightarrow> entry list" where
  "matches B cell = filter (\<lambda>e. entry_name e = B) cell"

text \<open>The cell \<open>table[i][j]\<close> after its list has been changed in place to \<open>c\<close>.\<close>

definition set_cell :: "cyk_table \<Rightarrow> nat \<Rightarrow> nat \<Rightarrow> entry list \<Rightarrow> cyk_table" where
  "set_cell tbl i j c = tbl[i := (tbl ! i)[j := c]]"

definition init_table :: "nat \<Rightarrow> cyk_table" where
  "init_table n = replicate n (replicate n [])"

text \<open>Step 1, for one rule of \<open>A\<close> and the token \<open>tok\<close> at position \<open>i\<close>.\<close>

definition diag_rule :: "pystr \<Rightarrow> pystr \<Rightarrow> rule \<Rightarrow> entry list \<Rightarrow> entry list" where
  "diag_rule A tok r cell = (if length r = 1 \<and> r ! 0 = tok then cell @ [Term A tok] else cell)"

definition diag_cell :: "grammar \<Rightarrow> pystr \<Rightarrow> entry list \<Rightarrow> entry list" where
  "diag_cell g tok cell = fold (\<lambda>(A, rules). fold (diag_rule A tok) rules) g cell"

definition fill_diag :: "grammar \<Rightarrow> pystr list \<Rightarrow> cyk_table \<Rightarrow> cyk_table" where
  "fill_diag g tokens tbl =
     fold (\<lambda>(i, tok) tbl. set_cell tbl i i (diag_cell g tok (tbl ! i ! i))) (enumerate 0 tokens) tbl"

text \<open>Step 2, the body of the innermost loop: one rule of \<open>A\<close> at the split \<open>k\<close>.\<close>

definition combine_rule ::
  "pystr \<Rightarrow> nat \<Rightarrow> entry list \<Rightarrow> entry list \<Rightarrow> rule \<Rightarrow> entry list \<Rightarrow> entry list" where
  "combine_rule A k left_cell right_cell r cell =
     (if length r \<noteq> 2 then cell
      else let B = r ! 0; C = r ! 1; b_matches = matches B left_cell in
           if b_matches = [] then cell
           else let c_matches = matches C right_cell in
                if c_matches = [] then cell
                else if list_ex (\<lambda>e. entry_name e = A) cell then cell
                else cell @ [Bin A k (hd b_matches) (hd c_matches)])"

text \<open>One split point \<open>k\<close> of the span \<open>[i, j]\<close>.\<close>

definition combine_split :: "grammar \<Rightarrow> cyk_table \<Rightarrow> nat \<Rightarrow> nat \<Rightarrow> nat \<Rightarrow> cyk_table" where
  "combine_split g tbl i j k =
     (let left_cell = tbl ! i ! k; right_cell = tbl ! (k + 1) ! j in
      if left_cell = [] \<or> right_cell = [] then tbl
      else set_cell tbl i j
             (fold (\<lambda>(A, rules). fold (combine_rule A k left_cell right_cell) rules) g (tbl ! i ! j)))"

text \<open>\<open>for k in range(i, j)\<close>, \<open>for i in range(0, n - length + 1)\<close>, \<open>for length in range(2, n + 1)\<close>\<close>

definition fill_cell :: "grammar \<Rightarrow> cyk_table \<Rightarrow> nat \<Rightarrow> nat \<Rightarrow> cyk_table" where
  "fill_cell g tbl i j = fold (\<lambda>k tbl. combine_split g tbl i j k) [i..<j] tbl"

definition fill_length :: "grammar \<Rightarrow> nat \<Rightarrow> nat \<Rightarrow> cyk_table \<Rightarrow> cyk_table" where
  "fill_length g n len tbl = fold (\<lambda>i tbl. fill_cell g tbl i (i + len - 1)) [0..<n - len + 1] tbl"

definition fill_all :: "grammar \<Rightarrow> nat \<Rightarrow> cyk_table \<Rightarrow> cyk_table" where
  "fill_all g n tbl = fold (fill_length g n) [2..<n + 1] tbl"

record cyk_result =
  table :: cyk_table
  success :: bool

definition run_cyk :: "grammar \<Rightarrow> pystr \<Rightarrow> pystr list \<Rightarrow> cyk_result" where
  "run_cyk g start_var tokens =
     (let n = length tokens in
      if n = 0 then \<lparr>table = [], success = False\<rparr>
      else let tbl = fill_all g n (fill_diag g tokens (init_table n))
           in \<lparr>table = tbl,
               success = list_ex (\<lambda>e. entry_name e = start_var) (tbl ! 0 ! (n - 1))\<rparr>)"

subsection \<open>Tree reconstruction\<close>

text \<open>
  A node is a dictionary with the key \<open>name\<close> and, for an inner node, the key
  \<open>children\<close>: a missing key is \<open>None\<close>.
\<close>

datatype pytree = Node (name: pystr) (children: "pytree list option")

text \<open>The label \<open>f"\"{t}\""\<close> of a leaf: the terminal between two double quotes.\<close>

definition quote :: "pystr \<Rightarrow> pystr" where
  "quote t = [34] @ t @ [34]"

text \<open>\<open>name.startswith("X")\<close>\<close>

definition startswith_X :: "pystr \<Rightarrow> bool" where
  "startswith_X s = (s \<noteq> [] \<and> hd s = 88)"

definition append_child :: "(pystr \<times> pystr) list \<Rightarrow> pytree \<Rightarrow> pytree list \<Rightarrow> pytree list" where
  "append_child ntm child cs =
     (if startswith_X (name child) \<and> map_of ntm (name child) = None
      then (case children child of Some cc \<Rightarrow> cs @ cc | None \<Rightarrow> cs)
      else cs @ [child])"

text \<open>
  \<open>reconstruct_tree\<close> follows the split indices it finds in the table it is given, and
  nothing bounds its recursion on a table that \<open>run_cyk\<close> did not build: it is a partial
  function, \<open>None\<close> when it does not return. Reading a cell outside the table raises
  IndexError.
\<close>

partial_function (option) reconstruct_tree ::
  "cyk_table \<Rightarrow> nat \<Rightarrow> nat \<Rightarrow> pystr \<Rightarrow> (pystr \<times> pystr) list \<Rightarrow> (py_error + pytree) option" where
  "reconstruct_tree tbl i j variable ntm =
     (if \<not> (i < length tbl \<and> j < length (tbl ! i)) then Some (Inl IndexError)
      else case matches variable (tbl ! i ! j) of
        [] \<Rightarrow> Some (Inr (Node (str ''ERROR:'' @ variable) None))
      | ent # _ \<Rightarrow>
          (case ent of
             Term A terminal \<Rightarrow>
               (case map_of ntm A of
                  Some t \<Rightarrow> Some (Inr (Node (quote t) None))
                | None \<Rightarrow> Some (Inr (Node A (Some [Node (quote terminal) None]))))
           | Bin A k left_ent right_ent \<Rightarrow>
               Option.bind (reconstruct_tree tbl i k (entry_name left_ent) ntm)
                 (\<lambda>l. case l of
                    Inl e \<Rightarrow> Some (Inl e)
                  | Inr left_child \<Rightarrow>
                      Option.bind (reconstruct_tree tbl (k + 1) j (entry_name right_ent) ntm)
                        (\<lambda>r. case r of
                           Inl e \<Rightarrow> Some (Inl e)
                         | Inr right_child \<Rightarrow>
                             Some (Inr (Node A (Some (append_child ntm right_child
                                                      (append_child ntm left_child [])))))))))"

declare reconstruct_tree.simps [code]

section \<open>The tree builder (logic/tree\_builder.py)\<close>

text \<open>\<open>flatten_tree\<close> on a dictionary node: the key \<open>children\<close> is kept when its list is not empty.\<close>

fun flatten_tree :: "pytree \<Rightarrow> pytree" where
  "flatten_tree (Node nm cs) =
     (case cs of
        None \<Rightarrow> Node nm None
      | Some cc \<Rightarrow> if cc = [] then Node nm None else Node nm (Some (map flatten_tree cc)))"

text \<open>The labels of the leaves of a tree, from left to right.\<close>

fun leaf_labels :: "pytree \<Rightarrow> pystr list" where
  "leaf_labels (Node nm cs) =
     (case cs of
        None \<Rightarrow> [nm]
      | Some cc \<Rightarrow> if cc = [] then [nm] else concat (map leaf_labels cc))"

text \<open>\<open>" ".join(labels)\<close>\<close>

fun join_space :: "pystr list \<Rightarrow> pystr" where
  "join_space [] = []"
| "join_space [x] = x"
| "join_space (x # y # ys) = x @ [32] @ join_space (y # ys)"

section \<open>The validator (logic/cfg\_parser.py)\<close>

text \<open>
  The productions arrive as a JSON value (\<open>productions: Any\<close>): a mapping, a list of
  entries, or anything else. An object is a Python \<open>dict\<close>, an association list with
  distinct keys.
\<close>

datatype json = JNull | JBool bool | JNum int | JStr pystr | JList "json list"
  | JDict "(pystr \<times> json) list"

text \<open>
  \<open>str.strip()\<close> and \<open>str.split()\<close> without argument work on the whitespace of the
  Python runtime, a table that is not part of the repository: it is the parameter \<open>sp\<close>,
  a predicate on code points. \<open>ascii_isspace\<close> is that table on the ASCII range, for
  concrete runs. \<open>split()\<close> cuts at every run of whitespace and returns no empty string;
  \<open>split("|")\<close> cuts at every separator and keeps empty strings.
\<close>

definition py_strip :: "(nat \<Rightarrow> bool) \<Rightarrow> pystr \<Rightarrow> pystr" where
  "py_strip sp s = rev (dropWhile sp (rev (dropWhile sp s)))"

fun split_acc :: "(nat \<Rightarrow> bool) \<Rightarrow> pystr \<Rightarrow> pystr \<Rightarrow> pystr list" where
  "split_acc sp cur [] = (if cur = [] then [] else [cur])"
| "split_acc sp cur (c # cs) =
     (if sp c then (if cur = [] then split_acc sp [] cs else cur # split_acc sp [] cs)
      else split_acc sp (cur @ [c]) cs)"

definition py_split :: "(nat \<Rightarrow> bool) \<Rightarrow> pystr \<Rightarrow> pystr list" where
  "py_split sp s = split_acc sp [] s"

fun split_on_acc :: "nat \<Rightarrow> pystr \<Rightarrow> pystr \<Rightarrow> pystr list" where
  "split_on_acc sep cur [] = [cur]"
| "split_on_acc sep cur (c # cs) =
     (if c = sep then cur # split_on_acc sep [] cs else split_on_acc sep (cur @ [c]) cs)"

definition split_on :: "nat \<Rightarrow> pystr \<Rightarrow> pystr list" where
  "split_on sep s = split_on_acc sep [] s"

definition ascii_isspace :: "nat \<Rightarrow> bool" where
  "ascii_isspace c = (c = 32 \<or> (9 \<le> c \<and> c \<le> 13) \<or> (28 \<le> c \<and> c \<le> 31))"

text \<open>
  \<open>is_variable\<close> of the validator: \<open>_VAR_RE.match(token)\<close> for the pattern
  \<open>^[A-Z][A-Za-z0-9_]*'?$\<close>. The character classes are ASCII ranges, and \<open>$\<close> also
  matches before a final newline.
\<close>

definition word_char :: "nat \<Rightarrow> bool" where
  "word_char c = ((65 \<le> c \<and> c \<le> 90) \<or> (97 \<le> c \<and> c \<le> 122) \<or> (48 \<le> c \<and> c \<le> 57) \<or> c = 95)"

definition var_core :: "pystr \<Rightarrow> bool" where
  "var_core s =
     (case s of
        [] \<Rightarrow> False
      | c # cs \<Rightarrow> 65 \<le> c \<and> c \<le> 90 \<and>
          list_all word_char (if cs \<noteq> [] \<and> last cs = 39 then butlast cs else cs))"

definition cfg_is_variable :: "pystr \<Rightarrow> bool" where
  "cfg_is_variable token = (var_core token \<or> (token \<noteq> [] \<and> last token = 10 \<and> var_core (butlast token)))"

text \<open>\<open>symbols if symbols else ["\<epsilon>"]\<close>\<close>

definition rule_of_tokens :: "rule \<Rightarrow> rule" where
  "rule_of_tokens symbols = (if symbols = [] then [eps] else symbols)"

text \<open>\<open>_parse_rhs_string\<close>, for a string argument (the only kind \<open>parse_cfg\<close> passes).\<close>

definition parse_rhs_string :: "(nat \<Rightarrow> bool) \<Rightarrow> pystr \<Rightarrow> rule list" where
  "parse_rhs_string sp rhs_str =
     map (\<lambda>p0. let p = py_strip sp p0 in
                if p = [] then [eps]
                else rule_of_tokens
                       (map (py_strip sp) (filter (\<lambda>tok. py_strip sp tok \<noteq> []) (py_split sp p))))
         (split_on 124 rhs_str)"

text \<open>\<open>[s.strip() for s in rhs if isinstance(s, str) and s.strip() != ""]\<close>\<close>

definition token_list :: "(nat \<Rightarrow> bool) \<Rightarrow> json list \<Rightarrow> rule" where
  "token_list sp js =
     concat (map (\<lambda>j. case j of
                         JStr s \<Rightarrow> (if py_strip sp s \<noteq> [] then [py_strip sp s] else [])
                       | _ \<Rightarrow> []) js)"

text \<open>
  The mapping form: one entry of \<open>rhs_list\<close>, the loop over \<open>rhs_list\<close>, and the
  body of the loop over \<open>productions.items()\<close>. Every \<open>raise CFGError\<close> is the value
  \<open>Inl CFGError\<close>.
\<close>

definition rhs_entry_dict :: "(nat \<Rightarrow> bool) \<Rightarrow> json \<Rightarrow> py_error + rule" where
  "rhs_entry_dict sp rhs =
     (case rhs of
        JStr s \<Rightarrow> Inr (rule_of_tokens (filter (\<lambda>t. t \<noteq> []) (py_split sp s)))
      | JList js \<Rightarrow> Inr (rule_of_tokens (token_list sp js))
      | _ \<Rightarrow> Inl CFGError)"

fun add_rules_dict :: "(nat \<Rightarrow> bool) \<Rightarrow> pystr \<Rightarrow> json list \<Rightarrow> grammar \<Rightarrow> py_error + grammar" where
  "add_rules_dict sp lhs [] pm = Inr pm"
| "add_rules_dict sp lhs (rhs # rest) pm =
     (case rhs_entry_dict sp rhs of
        Inl e \<Rightarrow> Inl e
      | Inr r \<Rightarrow> add_rules_dict sp lhs rest (dict_append pm lhs r))"

definition dict_item :: "(nat \<Rightarrow> bool) \<Rightarrow> pystr \<times> json \<Rightarrow> grammar \<Rightarrow> py_error + grammar" where
  "dict_item sp item pm =
     (case item of (lhs0, rhs_list) \<Rightarrow>
        if lhs0 = [] then Inl CFGError
        else let lhs = py_strip sp lhs0 in
             if lhs = [] then Inr pm
             else if \<not> cfg_is_variable lhs then Inl CFGError
             else (case rhs_list of
                     JList rs \<Rightarrow> add_rules_dict sp lhs rs (setdefault pm lhs)
                   | _ \<Rightarrow> Inl CFGError))"

text \<open>The list form: the body of the loop over the entries.\<close>

fun is_list :: "json \<Rightarrow> bool" where
  "is_list (JList js) = True"
| "is_list _ = False"

fun list_items :: "json \<Rightarrow> json list" where
  "list_items (JList js) = js"
| "list_items _ = []"

definition list_entry :: "(nat \<Rightarrow> bool) \<Rightarrow> json \<Rightarrow> grammar \<Rightarrow> py_error + grammar" where
  "list_entry sp entry pm =
     (case entry of
        JDict kv \<Rightarrow>
          (case map_of kv (str ''lhs'') of
             Some (JStr lhs0) \<Rightarrow>
               if lhs0 = [] then Inl CFGError
               else let lhs = py_strip sp lhs0 in
                    if lhs = [] then Inr pm
                    else if \<not> cfg_is_variable lhs then Inl CFGError
                    else (case map_of kv (str ''rhs'') of
                            Some (JStr s) \<Rightarrow>
                              Inr (fold (\<lambda>r m. dict_append m lhs r) (parse_rhs_string sp s)
                                     (setdefault pm lhs))
                          | Some (JList js) \<Rightarrow>
                              if length js > 0 \<and> list_all is_list js
                              then Inr (fold (\<lambda>r m. dict_append m lhs
                                                       (rule_of_tokens (token_list sp (list_items r))))
                                          js (setdefault pm lhs))
                              else Inr (dict_append (setdefault pm lhs) lhs
                                          (rule_of_tokens (token_list sp js)))
                          | _ \<Rightarrow> Inl CFGError)
           | _ \<Rightarrow> Inl CFGError)
      | _ \<Rightarrow> Inl CFGError)"

text \<open>A loop whose body may raise: the first error ends it.\<close>

fun fold_err :: "('a \<Rightarrow> 'b \<Rightarrow> py_error + 'b) \<Rightarrow> 'a list \<Rightarrow> 'b \<Rightarrow> py_error + 'b" where
  "fold_err f [] s = Inr s"
| "fold_err f (x # xs) s = (case f x s of Inl e \<Rightarrow> Inl e | Inr s' \<Rightarrow> fold_err f xs s')"

definition build_productions :: "(nat \<Rightarrow> bool) \<Rightarrow> json \<Rightarrow> py_error + grammar" where
  "build_productions sp productions =
     (case productions of
        JDict items \<Rightarrow> fold_err (dict_item sp) items []
      | JList entries \<Rightarrow> fold_err (list_entry sp) entries []
      | _ \<Rightarrow> Inl CFGError)"

text \<open>
  The check of the right-hand sides: some symbol other than the epsilon sign looks like
  a variable and is no key of the map.
\<close>

definition undeclared_use :: "grammar \<Rightarrow> bool" where
  "undeclared_use pm =
     list_ex (\<lambda>(lhs, rules).
        list_ex (\<lambda>r. list_ex (\<lambda>x. x \<noteq> eps \<and> cfg_is_variable x \<and> x \<notin> fst ` set pm) r) rules) pm"

text \<open>
  The useful variables. The set \<open>useful\<close> is iterated later, so it is kept as the list
  of its elements in insertion order; \<open>useful_pass\<close> is one run of the
  \<open>for var in list(grammar.keys())\<close> loop and \<open>useful_loop\<close> the \<open>while changed\<close> loop.
\<close>

definition rule_useful :: "pystr set \<Rightarrow> rule \<Rightarrow> bool" where
  "rule_useful useful r = list_all (\<lambda>x. x = eps \<or> \<not> (cfg_is_variable x \<and> x \<notin> useful)) r"

fun useful_pass :: "grammar \<Rightarrow> pystr list \<Rightarrow> pystr list \<times> bool \<Rightarrow> pystr list \<times> bool" where
  "useful_pass g [] st = st"
| "useful_pass g (var # vars) (useful, changed) =
     (if var \<in> set useful then useful_pass g vars (useful, changed)
      else if list_ex (rule_useful (set useful)) (get_rules g var)
           then useful_pass g vars (useful @ [var], True)
           else useful_pass g vars (useful, changed))"

lemma useful_pass_grows:
  "useful_pass g vars (u, c) = (u', c') \<Longrightarrow>
     set u \<subseteq> set u' \<and> set u' \<subseteq> set u \<union> set vars \<and> (c' \<longrightarrow> c \<or> set u \<subset> set u')
     \<and> (distinct u \<longrightarrow> distinct u')"
proof (induction vars arbitrary: u c)
  case Nil
  then show ?case by simp
next
  case (Cons var vars)
  show ?case
  proof (cases "var \<notin> set u \<and> list_ex (rule_useful (set u)) (get_rules g var)")
    case True
    with Cons.prems have "useful_pass g vars (u @ [var], True) = (u', c')" by simp
    from Cons.IH [OF this] True show ?thesis by auto
  next
    case False
    with Cons.prems have "useful_pass g vars (u, c) = (u', c')" by (auto split: if_splits)
    from Cons.IH [OF this] show ?thesis by auto
  qed
qed

function useful_loop :: "grammar \<Rightarrow> pystr list \<Rightarrow> pystr list" where
  "useful_loop g useful =
     (case useful_pass g (map fst g) (useful, False) of
        (useful', changed) \<Rightarrow> if changed then useful_loop g useful' else useful')"
  by pat_completeness auto
termination
proof (relation "measure (\<lambda>(g, u). card (fst ` set g - set u))")
  show "wf (measure (\<lambda>(g, u). card (fst ` set g - set u)))" by simp
next
  fix g :: grammar and useful x u' :: "pystr list" and changed :: bool
  assume "(u', changed) = useful_pass g (map fst g) (useful, False)" and changed
  then have "useful_pass g (map fst g) (useful, False) = (u', True)" by simp
  from useful_pass_grows [OF this]
  have sub: "set useful \<subset> set u'" and bound: "set u' \<subseteq> set useful \<union> fst ` set g" by auto
  have "fst ` set g - set u' \<subset> fst ` set g - set useful"
    using sub bound by auto
  then have "card (fst ` set g - set u') < card (fst ` set g - set useful)"
    by (intro psubset_card_mono) auto
  then show "((g, u'), (g, useful)) \<in> measure (\<lambda>(g, u). card (fst ` set g - set u))"
    by simp
qed

declare useful_loop.simps [simp del]

text \<open>
  The reachable variables: \<open>visit\<close> is the body of the loop over the symbols of a rule,
  \<open>reach_loop\<close> the \<open>while stack\<close> loop, where \<open>stack.pop()\<close> takes the last element.
\<close>

definition visit :: "grammar \<Rightarrow> pystr \<Rightarrow> pystr list \<times> pystr list \<Rightarrow> pystr list \<times> pystr list" where
  "visit g x st =
     (case st of (reachable, stack) \<Rightarrow>
        if cfg_is_variable x \<and> x \<notin> set reachable \<and> x \<in> fst ` set g
        then (reachable @ [x], stack @ [x]) else (reachable, stack))"

lemma fold_visit:
  "fold (visit g) xs (r, s) = (r', s') \<Longrightarrow>
     ((r' = r \<and> s' = s) \<or> (set r \<subset> set r' \<and> set r' \<subseteq> set r \<union> fst ` set g))
     \<and> (distinct r \<longrightarrow> distinct r')"
proof (induction xs arbitrary: r s)
  case Nil
  then show ?case by simp
next
  case (Cons x xs)
  show ?case
  proof (cases "cfg_is_variable x \<and> x \<notin> set r \<and> x \<in> fst ` set g")
    case True
    then have "visit g x (r, s) = (r @ [x], s @ [x])" by (simp add: visit_def)
    with Cons.prems have "fold (visit g) xs (r @ [x], s @ [x]) = (r', s')" by simp
    from Cons.IH [OF this]
    have A: "(r' = r @ [x] \<and> s' = s @ [x]) \<or>
             (set (r @ [x]) \<subset> set r' \<and> set r' \<subseteq> set (r @ [x]) \<union> fst ` set g)"
      and D: "distinct (r @ [x]) \<longrightarrow> distinct r'" by blast+
    from True have x: "x \<notin> set r" "x \<in> fst ` set g" by blast+
    from A have mem: "x \<in> set r'" and sub: "set r \<subseteq> set r'"
      and bnd: "set r' \<subseteq> insert x (set r) \<union> fst ` set g"
    proof -
      from A show "x \<in> set r'"
      proof
        assume "r' = r @ [x] \<and> s' = s @ [x]" then show ?thesis by simp
      next
        assume "set (r @ [x]) \<subset> set r' \<and> set r' \<subseteq> set (r @ [x]) \<union> fst ` set g"
        then have "set (r @ [x]) \<subseteq> set r'" by blast
        then show ?thesis by simp
      qed
      from A show "set r \<subseteq> set r'"
      proof
        assume "r' = r @ [x] \<and> s' = s @ [x]" then show ?thesis by auto
      next
        assume "set (r @ [x]) \<subset> set r' \<and> set r' \<subseteq> set (r @ [x]) \<union> fst ` set g"
        then have "set (r @ [x]) \<subseteq> set r'" by blast
        then show ?thesis by simp
      qed
      from A show "set r' \<subseteq> insert x (set r) \<union> fst ` set g"
      proof
        assume "r' = r @ [x] \<and> s' = s @ [x]" then show ?thesis by auto
      next
        assume "set (r @ [x]) \<subset> set r' \<and> set r' \<subseteq> set (r @ [x]) \<union> fst ` set g"
        then show ?thesis by simp
      qed
    qed
    from mem sub x have "set r \<subset> set r'" by blast
    moreover from bnd x have "set r' \<subseteq> set r \<union> fst ` set g" by blast
    moreover from D x have "distinct r \<longrightarrow> distinct r'" by simp
    ultimately show ?thesis by blast
  next
    case False
    then have "visit g x (r, s) = (r, s)" by (auto simp: visit_def)
    with Cons.prems have "fold (visit g) xs (r, s) = (r', s')" by simp
    from Cons.IH [OF this] show ?thesis .
  qed
qed

function reach_loop :: "grammar \<Rightarrow> pystr list \<Rightarrow> pystr list \<Rightarrow> pystr list" where
  "reach_loop g reachable stack =
     (if stack = [] then reachable
      else (case fold (visit g) (concat (get_rules g (last stack))) (reachable, butlast stack) of
              (reachable', stack') \<Rightarrow> reach_loop g reachable' stack'))"
  by pat_completeness auto
termination
proof (relation "(\<lambda>(g, r, s). card (fst ` set g - set r)) <*mlex*> measure (\<lambda>(g, r, s). length s)")
  show "wf ((\<lambda>(g, r, s). card (fst ` set g - set r)) <*mlex*> measure (\<lambda>(g, r, s). length s))"
    by (rule wf_mlex) simp
next
  fix g :: grammar and reachable stack x r' s' :: "pystr list"
  assume ne: "stack \<noteq> []"
    and "(r', s') = fold (visit g) (concat (get_rules g (last stack))) (reachable, butlast stack)"
  then have f: "fold (visit g) (concat (get_rules g (last stack))) (reachable, butlast stack) = (r', s')"
    by simp
  from fold_visit [OF f]
  have "(r' = reachable \<and> s' = butlast stack) \<or>
        (set reachable \<subset> set r' \<and> set r' \<subseteq> set reachable \<union> fst ` set g)" by simp
  then show "((g, r', s'), (g, reachable, stack)) \<in>
      (\<lambda>(g, r, s). card (fst ` set g - set r)) <*mlex*> measure (\<lambda>(g, r, s). length s)"
  proof
    assume "r' = reachable \<and> s' = butlast stack"
    with ne show ?thesis by (intro mlex_leq) auto
  next
    assume a: "set reachable \<subset> set r' \<and> set r' \<subseteq> set reachable \<union> fst ` set g"
    then have "fst ` set g - set r' \<subset> fst ` set g - set reachable" by auto
    then have "card (fst ` set g - set r') < card (fst ` set g - set reachable)"
      by (intro psubset_card_mono) auto
    then show ?thesis by (intro mlex_less) simp
  qed
qed

declare reach_loop.simps [simp del]

text \<open>
  \<open>parse_cfg\<close>. Python does not fix the order in which \<open>for var in useful\<close> and
  \<open>for var in reachable\<close> visit a set: the order is the parameter \<open>iter\<close>, applied to
  the elements in insertion order.
\<close>

definition parse_cfg ::
  "(nat \<Rightarrow> bool) \<Rightarrow> (pystr list \<Rightarrow> pystr list) \<Rightarrow> pystr \<Rightarrow> json \<Rightarrow> py_error + grammar" where
  "parse_cfg sp iter start_variable0 productions =
     (if start_variable0 = [] then Inl CFGError
      else let start_variable = py_strip sp start_variable0 in
           if \<not> cfg_is_variable start_variable then Inl CFGError
           else (case build_productions sp productions of
                   Inl e \<Rightarrow> Inl e
                 | Inr pm0 \<Rightarrow>
                     let productions_map = filter (\<lambda>(k, v). k \<noteq> [] \<and> v \<noteq> []) pm0 in
                     if length productions_map = 0 then Inl CFGError
                     else if undeclared_use productions_map then Inl CFGError
                     else let useful = useful_loop productions_map [] in
                          if start_variable \<notin> set useful then Inl CFGError
                          else let useful_grammar =
                                     map (\<lambda>var. (var, filter (rule_useful (set useful))
                                                         (get_rules productions_map var)))
                                         (iter useful);
                                   reachable = reach_loop useful_grammar [start_variable] [start_variable]
                               in if start_variable \<notin> set reachable then Inl CFGError
                                  else let final_grammar =
                                             map (\<lambda>var. (var, get_rules useful_grammar var))
                                                 (iter reachable)
                                       in if start_variable \<notin> fst ` set final_grammar then Inl CFGError
                                          else Inr final_grammar))"

section \<open>The application (app.py)\<close>

text \<open>
  \<open>convert_to_cnf\<close> returns a dictionary with the keys \<open>grammar\<close>, \<open>start_var\<close>,
  \<open>term_map\<close> and \<open>nonterm_map\<close>; \<open>d[k]\<close> raises KeyError for a key that is missing.
\<close>

datatype cnf_value = VGrammar grammar | VStr pystr | VMap "(pystr \<times> pystr) list"

definition result_dict :: "cnf_result \<Rightarrow> (string \<times> cnf_value) list" where
  "result_dict r =
     [(''grammar'', VGrammar (r_grammar r)), (''start_var'', VStr (r_start_var r)),
      (''term_map'', VMap (r_term_map r)), (''nonterm_map'', VMap (r_nonterm_map r))]"

definition subscript :: "(string \<times> cnf_value) list \<Rightarrow> string \<Rightarrow> py_error + cnf_value" where
  "subscript d k = (case map_of d k of None \<Rightarrow> Inl KeyError | Some v \<Rightarrow> Inr v)"

text \<open>The five module-level variables; \<open>None\<close> before a grammar is set.\<close>

record app_state =
  GLOBAL_ORIGINAL_CFG :: "grammar option"
  GLOBAL_CNF :: "cnf_value option"
  GLOBAL_START :: "cnf_value option"
  GLOBAL_TERM_MAP :: "cnf_value option"
  GLOBAL_NONTERM_MAP :: "cnf_value option"

text \<open>
  \<open>set_grammar\<close>, given the text of \<open>data.get("start", "")\<close> and the value of
  \<open>data.get("productions", [])\<close>: the new state and the field \<open>success\<close> of the
  response. The \<open>except Exception\<close> clause turns every error into a response.
\<close>

definition set_grammar ::
  "(nat \<Rightarrow> bool) \<Rightarrow> (nat \<Rightarrow> bool) \<Rightarrow> (pystr list \<Rightarrow> pystr list) \<Rightarrow>
     app_state \<Rightarrow> pystr \<Rightarrow> json \<Rightarrow> app_state \<times> bool" where
  "set_grammar up sp iter st start productions =
     (let start_var = py_strip sp start in
      case parse_cfg sp iter start_var productions of
        Inl e \<Rightarrow> (st, False)
      | Inr original_cfg \<Rightarrow>
          (case convert_to_cnf up original_cfg start_var of
             Inl e \<Rightarrow> (st, False)
           | Inr cnf_result \<Rightarrow>
               let st1 = st\<lparr>GLOBAL_ORIGINAL_CFG := Some original_cfg\<rparr> in
               (case subscript (result_dict cnf_result) ''grammar'' of
                  Inl e \<Rightarrow> (st1, False)
                | Inr v1 \<Rightarrow>
                    let st2 = st1\<lparr>GLOBAL_CNF := Some v1\<rparr> in
                    (case subscript (result_dict cnf_result) ''start'' of
                       Inl e \<Rightarrow> (st2, False)
                     | Inr v2 \<Rightarrow>
                         let st3 = st2\<lparr>GLOBAL_START := Some v2\<rparr> in
                         (case subscript (result_dict cnf_result) ''term_map'' of
                            Inl e \<Rightarrow> (st3, False)
                          | Inr v3 \<Rightarrow>
                              let st4 = st3\<lparr>GLOBAL_TERM_MAP := Some v3\<rparr> in
                              (case subscript (result_dict cnf_result) ''nonterm_map'' of
                                 Inl e \<Rightarrow> (st4, False)
                               | Inr v4 \<Rightarrow> (st4\<lparr>GLOBAL_NONTERM_MAP := Some v4\<rparr>, True)))))))"

section \<open>Notions used in the statements and proofs\<close>

subsection \<open>The evidence of a span, in the order the loops find it\<close>

text \<open>
  What one rule \<open>A \<rightarrow> B C\<close> contributes at the split \<open>k\<close>: the entry the code
  would append, when \<open>B\<close> is in the left cell and \<open>C\<close> in the right one.
\<close>

definition cand_rule :: "pystr \<Rightarrow> nat \<Rightarrow> entry list \<Rightarrow> entry list \<Rightarrow> rule \<Rightarrow> entry list" where
  "cand_rule A k left_cell right_cell r =
     (if length r = 2 \<and> matches (r ! 0) left_cell \<noteq> [] \<and> matches (r ! 1) right_cell \<noteq> []
      then [Bin A k (hd (matches (r ! 0) left_cell)) (hd (matches (r ! 1) right_cell))]
      else [])"

text \<open>All rules at one split, in the order of \<open>cnf_grammar.items()\<close> and of each rule list.\<close>

definition cands_split :: "grammar \<Rightarrow> cyk_table \<Rightarrow> nat \<Rightarrow> nat \<Rightarrow> nat \<Rightarrow> entry list" where
  "cands_split g tbl i j k =
     concat (map (\<lambda>(A, rules). concat (map (cand_rule A k (tbl ! i ! k) (tbl ! (k + 1) ! j)) rules)) g)"

text \<open>All splits \<open>k = i, ..., j - 1\<close> of the span \<open>[i, j]\<close>, in increasing order.\<close>

definition candidates :: "grammar \<Rightarrow> cyk_table \<Rightarrow> nat \<Rightarrow> nat \<Rightarrow> entry list" where
  "candidates g tbl i j = concat (map (cands_split g tbl i j) [i..<j])"

text \<open>\<open>if not existing: table[i][j].append(...)\<close>: an entry is added unless its variable is present.\<close>

definition add_entry :: "entry \<Rightarrow> entry list \<Rightarrow> entry list" where
  "add_entry e cell = (if list_ex (\<lambda>x. entry_name x = entry_name e) cell then cell else cell @ [e])"

subsection \<open>Notions used in the proofs about the recognizer\<close>

text \<open>A table of \<open>n\<close> rows of \<open>n\<close> cells.\<close>

definition dims :: "nat \<Rightarrow> cyk_table \<Rightarrow> bool" where
  "dims n tbl = (length tbl = n \<and> (\<forall>i<n. length (tbl ! i) = n))"

text \<open>
  The spans the loops have dealt with when they reach the length \<open>L\<close> and the start
  \<open>i0\<close>, and what the table holds at that moment: the diagonal \<open>d\<close>, the evidence of
  every span dealt with, and empty cells elsewhere above the diagonal.
\<close>

definition filled :: "nat \<Rightarrow> nat \<Rightarrow> nat \<Rightarrow> nat \<Rightarrow> bool" where
  "filled L i0 i j = (j - i + 1 < L \<or> (j - i + 1 = L \<and> i < i0))"

definition cyk_inv :: "grammar \<Rightarrow> nat \<Rightarrow> (nat \<Rightarrow> entry list) \<Rightarrow> nat \<Rightarrow> nat \<Rightarrow> cyk_table \<Rightarrow> bool" where
  "cyk_inv g n d L i0 tbl =
     (dims n tbl \<and> (\<forall>i<n. tbl ! i ! i = d i) \<and>
      (\<forall>i j. i < j \<and> j < n \<longrightarrow>
         tbl ! i ! j = (if filled L i0 i j then fold add_entry (candidates g tbl i j) [] else [])))"

text \<open>The body of step 1 for one position.\<close>

definition diag_step :: "grammar \<Rightarrow> nat \<times> pystr \<Rightarrow> cyk_table \<Rightarrow> cyk_table" where
  "diag_step g = (\<lambda>(i, tok) tbl. set_cell tbl i i (diag_cell g tok (tbl ! i ! i)))"

text \<open>
  The leaf labels of a tree as \<open>flatten_tree\<close> returns it, and the trees
  \<open>reconstruct_tree\<close> builds: a leaf whose label does not start with X, or a node with
  at least one child.
\<close>

definition lv :: "pytree \<Rightarrow> pystr list" where
  "lv t = leaf_labels (flatten_tree t)"

definition good :: "pytree \<Rightarrow> bool" where
  "good t = (case children t of None \<Rightarrow> \<not> startswith_X (name t) | Some cc \<Rightarrow> cc \<noteq> [])"

subsection \<open>The nullable set as the specification words it\<close>

text \<open>
  The least fixed point of the specification: a variable is nullable if it has an
  epsilon rule, or a rule all of whose symbols are nullable variables.
\<close>

inductive nullable_spec :: "(nat \<Rightarrow> bool) \<Rightarrow> grammar \<Rightarrow> pystr \<Rightarrow> bool"
  for up :: "nat \<Rightarrow> bool" and g :: grammar where
  eps_rule: "(A, rules) \<in> set g \<Longrightarrow> [eps] \<in> set rules \<Longrightarrow> nullable_spec up g A"
| all_nullable: "(A, rules) \<in> set g \<Longrightarrow> r \<in> set rules \<Longrightarrow>
     \<forall>x\<in>set r. is_variable up x \<and> nullable_spec up g x \<Longrightarrow> nullable_spec up g A"

section \<open>Properties of the CNF converter\<close>

text \<open>
  C1. The conversion is claimed to be total, also on a grammar with the self-unit rule
  \<open>S \<rightarrow> S | a\<close>. Unit elimination skips \<open>S \<rightarrow> S\<close>, the rule reaches step 5
  with one variable, is neither a single terminal nor of length two, and
  \<open>left, right = chain\<close> raises ValueError. The grammar is one the validator
  returns, for the single entry with left-hand side \<open>S\<close> and right-hand side
  \<open>S | a\<close>.
\<close>

theorem C1_self_unit_raises:
  "parse_cfg ascii_isspace (\<lambda>xs. xs) (str ''S'')
     (JList [JDict [(str ''lhs'', JStr (str ''S'')), (str ''rhs'', JStr (str ''S | a''))]])
     = Inr [(str ''S'', [[str ''S''], [str ''a'']])]
   \<and> convert_to_cnf ascii_isupper [(str ''S'', [[str ''S''], [str ''a'']])] (str ''S'')
     = Inl ValueError"
  by (intro conjI) code_simp+

text \<open>
  C2. The nullable set is claimed to be the least fixed point of the specification, so
  that \<open>S\<close> is not nullable in \<open>S \<rightarrow> a\<close> and no new start variable appears. The
  scan of the code ignores terminals: on \<open>S \<rightarrow> a\<close> it makes \<open>S\<close> nullable, which
  the specification's fixed point does not, and the start variable becomes \<open>S'\<close>.
\<close>

theorem C2_terminal_rule_nullable:
  "nullable_set ascii_isupper [(str ''S'', [[str ''a'']])] = {str ''S''}
   \<and> \<not> nullable_spec ascii_isupper [(str ''S'', [[str ''a'']])] (str ''S'')
   \<and> convert_to_cnf ascii_isupper [(str ''S'', [[str ''a'']])] (str ''S'')
       = Inr \<lparr>r_grammar = [(str ''S'', [[str ''a'']]), (str ''S'' @ [39], [[eps], [str ''a'']])],
              r_start_var = str ''S'' @ [39], r_term_map = [], r_nonterm_map = []\<rparr>"
proof (intro conjI)
  show "nullable_set ascii_isupper [(str ''S'', [[str ''a'']])] = {str ''S''}"
    by code_simp
  show "\<not> nullable_spec ascii_isupper [(str ''S'', [[str ''a'']])] (str ''S'')"
  proof
    assume "nullable_spec ascii_isupper [(str ''S'', [[str ''a'']])] (str ''S'')"
    then show False
      by cases (auto simp: str_def eps_def is_variable_def ascii_isupper_def)
  qed
  show "convert_to_cnf ascii_isupper [(str ''S'', [[str ''a'']])] (str ''S'')
       = Inr \<lparr>r_grammar = [(str ''S'', [[str ''a'']]), (str ''S'' @ [39], [[eps], [str ''a'']])],
              r_start_var = str ''S'' @ [39], r_term_map = [], r_nonterm_map = []\<rparr>"
    by code_simp
qed

theorem C2_terminal_rule_nullable_witness:
  "str ''S'' \<in> nullable_set ascii_isupper [(str ''S'', [[str ''a'']])]"
  using C2_terminal_rule_nullable by simp

subsection \<open>Unit elimination: what one pass does, and that the loop is one pass\<close>












section \<open>Properties of the recognizer and of the reconstruction\<close>

lemma combine_rule_add:
  "combine_rule A k L R r cell = fold add_entry (cand_rule A k L R r) cell"
  by (simp add: combine_rule_def cand_rule_def add_entry_def Let_def)

lemma fold_combine_rules:
  "fold (combine_rule A k L R) rules cell
     = fold add_entry (concat (map (cand_rule A k L R) rules)) cell"
  by (induction rules arbitrary: cell) (simp_all add: combine_rule_add)

lemma fold_combine_items:
  "fold (\<lambda>(A, rules). fold (combine_rule A k L R) rules) g cell
     = fold add_entry (concat (map (\<lambda>(A, rules). concat (map (cand_rule A k L R) rules)) g)) cell"
  by (induction g arbitrary: cell) (auto simp: fold_combine_rules)

lemma cands_empty:
  "L = [] \<or> R = [] \<Longrightarrow>
     concat (map (\<lambda>(A, rules). concat (map (cand_rule A k L R) rules)) g) = []"
  by (auto simp: cand_rule_def matches_def)

lemma combine_split_eq:
  "combine_split g tbl i j k
     = set_cell tbl i j (fold add_entry (cands_split g tbl i j k) (tbl ! i ! j))"
proof (cases "tbl ! i ! k = [] \<or> tbl ! (k + 1) ! j = []")
  case True
  then have "cands_split g tbl i j k = []"
    unfolding cands_split_def by (rule cands_empty)
  with True show ?thesis by (simp add: combine_split_def set_cell_def Let_def)
next
  case False
  then show ?thesis
    by (simp add: combine_split_def Let_def cands_split_def fold_combine_items)
qed

lemma set_cell_get:
  assumes "dims n tbl" "i < n" "j < n" "i' < n" "j' < n"
  shows "set_cell tbl i j c ! i' ! j' = (if i' = i \<and> j' = j then c else tbl ! i' ! j')"
proof (cases "i' = i")
  case True
  with assms show ?thesis by (simp add: set_cell_def dims_def nth_list_update)
next
  case False
  with assms show ?thesis by (simp add: set_cell_def dims_def nth_list_update)
qed

lemma set_cell_dims:
  assumes "dims n tbl"
  shows "dims n (set_cell tbl i j c)"
proof -
  have len: "length (set_cell tbl i j c) = n" using assms by (simp add: set_cell_def dims_def)
  have "length (set_cell tbl i j c ! i') = n" if "i' < n" for i'
  proof (cases "i' = i")
    case True
    with that assms show ?thesis by (simp add: set_cell_def dims_def)
  next
    case False
    with that assms show ?thesis by (simp add: set_cell_def dims_def)
  qed
  with len show ?thesis by (simp add: dims_def)
qed

lemma set_cell_twice:
  "i < length tbl \<Longrightarrow> set_cell (set_cell tbl i j c) i j c' = set_cell tbl i j c'"
  by (simp add: set_cell_def)

lemma set_cell_same: "set_cell tbl i j (tbl ! i ! j) = tbl"
  by (simp add: set_cell_def)

lemma cands_split_cong:
  "tbl' ! i ! k = tbl ! i ! k \<Longrightarrow> tbl' ! (k + 1) ! j = tbl ! (k + 1) ! j \<Longrightarrow>
     cands_split g tbl' i j k = cands_split g tbl i j k"
  by (simp add: cands_split_def)

lemma candidates_cong:
  assumes "\<And>k. i \<le> k \<Longrightarrow> k < j \<Longrightarrow> tbl' ! i ! k = tbl ! i ! k \<and> tbl' ! (k + 1) ! j = tbl ! (k + 1) ! j"
  shows "candidates g tbl' i j = candidates g tbl i j"
proof -
  have "cands_split g tbl' i j k = cands_split g tbl i j k" if "k \<in> set [i..<j]" for k
  proof (rule cands_split_cong)
    from that have "i \<le> k" "k < j" by auto
    from assms [OF this] show "tbl' ! i ! k = tbl ! i ! k" "tbl' ! (k + 1) ! j = tbl ! (k + 1) ! j"
      by auto
  qed
  then have "map (cands_split g tbl' i j) [i..<j] = map (cands_split g tbl i j) [i..<j]"
    by (intro map_cong [OF refl])
  then show ?thesis by (simp only: candidates_def)
qed

lemma fold_splits:
  "dims n tbl \<Longrightarrow> i < n \<Longrightarrow> j < n \<Longrightarrow> \<forall>k\<in>set ks. i \<le> k \<and> k < j \<Longrightarrow>
     fold (\<lambda>k tbl. combine_split g tbl i j k) ks tbl
       = set_cell tbl i j (fold add_entry (concat (map (cands_split g tbl i j) ks)) (tbl ! i ! j))"
proof (induction ks arbitrary: tbl)
  case Nil
  then show ?case by (simp add: set_cell_same)
next
  case (Cons k ks)
  define c1 where "c1 = fold add_entry (cands_split g tbl i j k) (tbl ! i ! j)"
  define tbl1 where "tbl1 = set_cell tbl i j c1"
  have step: "combine_split g tbl i j k = tbl1"
    by (simp add: combine_split_eq tbl1_def c1_def)
  have d1: "dims n tbl1" unfolding tbl1_def by (rule set_cell_dims [OF Cons.prems(1)])
  have ks: "\<forall>k\<in>set ks. i \<le> k \<and> k < j" using Cons.prems(4) by simp
  have same: "cands_split g tbl1 i j k' = cands_split g tbl i j k'" if "k' \<in> set ks" for k'
  proof (rule cands_split_cong)
    from that ks have k': "i \<le> k'" "k' < j" by auto
    with Cons.prems have "k' < n" "k' \<noteq> j" by auto
    with Cons.prems show "tbl1 ! i ! k' = tbl ! i ! k'"
      unfolding tbl1_def by (simp add: set_cell_get [OF Cons.prems(1)])
    from k' Cons.prems have "k' + 1 < n" "k' + 1 \<noteq> i" by auto
    with Cons.prems show "tbl1 ! (k' + 1) ! j = tbl ! (k' + 1) ! j"
      unfolding tbl1_def by (simp add: set_cell_get [OF Cons.prems(1)])
  qed
  then have m: "map (cands_split g tbl1 i j) ks = map (cands_split g tbl i j) ks"
    by (intro map_cong [OF refl])
  have c: "tbl1 ! i ! j = c1"
    unfolding tbl1_def using Cons.prems by (simp add: set_cell_get [OF Cons.prems(1)])
  from Cons.prems have il: "i < length tbl" by (simp add: dims_def)
  have "fold (\<lambda>k tbl. combine_split g tbl i j k) (k # ks) tbl
          = fold (\<lambda>k tbl. combine_split g tbl i j k) ks tbl1"
    by (simp add: step)
  also have "\<dots> = set_cell tbl1 i j
      (fold add_entry (concat (map (cands_split g tbl1 i j) ks)) (tbl1 ! i ! j))"
    by (rule Cons.IH [OF d1 Cons.prems(2,3) ks])
  also have "\<dots> = set_cell tbl i j
      (fold add_entry (concat (map (cands_split g tbl i j) (k # ks))) (tbl ! i ! j))"
    unfolding m c by (simp add: tbl1_def set_cell_twice [OF il] c1_def)
  finally show ?case .
qed

lemma fill_cell_eq:
  assumes "dims n tbl" and "i < j" and "j < n"
  shows "fill_cell g tbl i j
     = set_cell tbl i j (fold add_entry (candidates g tbl i j) (tbl ! i ! j))"
proof -
  have i: "i < n" using assms by simp
  have ks: "\<forall>k\<in>set [i..<j]. i \<le> k \<and> k < j" by simp
  show ?thesis
    unfolding fill_cell_def candidates_def
    by (rule fold_splits [OF assms(1) i assms(3) ks])
qed

lemma matches_Nil: "matches A [] = []"
  by (simp add: matches_def)

lemma matches_Cons:
  "matches A (e # es) = (if entry_name e = A then e # matches A es else matches A es)"
  by (simp add: matches_def)

lemma matches_append: "matches A (xs @ ys) = matches A xs @ matches A ys"
  by (simp add: matches_def)

lemma matches_empty_iff: "matches A cell = [] \<longleftrightarrow> \<not> list_ex (\<lambda>x. entry_name x = A) cell"
  by (auto simp: matches_def list_ex_iff filter_empty_conv)

lemma matches_fold_add:
  "matches A (fold add_entry es cell)
     = (if matches A cell \<noteq> [] then matches A cell else take 1 (matches A es))"
proof (induction es arbitrary: cell)
  case Nil
  then show ?case by (simp add: matches_Nil)
next
  case (Cons e es)
  show ?case
  proof (cases "entry_name e = A")
    case True
    show ?thesis
    proof (cases "matches A cell = []")
      case empty: True
      with True have a: "add_entry e cell = cell @ [e]"
        by (simp add: add_entry_def matches_empty_iff)
      have "matches A (cell @ [e]) = [e]"
        using empty True by (simp add: matches_append matches_Cons matches_Nil)
      then have "matches A (fold add_entry es (cell @ [e])) = [e]"
        by (simp add: Cons.IH)
      with a empty True show ?thesis by (simp add: matches_Cons)
    next
      case False
      with True have "add_entry e cell = cell"
        by (simp add: add_entry_def matches_empty_iff)
      with False show ?thesis by (simp add: Cons.IH)
    qed
  next
    case False
    then have "matches A (add_entry e cell) = matches A cell"
      by (simp add: add_entry_def matches_append matches_Cons matches_Nil)
    with False show ?thesis by (simp add: Cons.IH matches_Cons)
  qed
qed

lemma inv_step:
  assumes inv: "cyk_inv g n d L i0 tbl" and L: "2 \<le> L" and bound: "i0 + L - 1 < n"
  shows "cyk_inv g n d L (Suc i0) (fill_cell g tbl i0 (i0 + L - 1))"
proof -
  define j0 where "j0 = i0 + L - 1"
  have ij: "i0 < j0" "j0 < n" "i0 < n" "j0 - i0 + 1 = L" using L bound by (auto simp: j0_def)
  from inv have d: "dims n tbl" by (simp add: cyk_inv_def)
  from inv ij have "tbl ! i0 ! j0 = (if filled L i0 i0 j0 then fold add_entry (candidates g tbl i0 j0) [] else [])"
    unfolding cyk_inv_def by blast
  moreover have "\<not> filled L i0 i0 j0" using ij by (simp add: filled_def)
  ultimately have empty: "tbl ! i0 ! j0 = []" by simp
  define c where "c = fold add_entry (candidates g tbl i0 j0) []"
  define tbl' where "tbl' = set_cell tbl i0 j0 c"
  have fc: "fill_cell g tbl i0 j0 = tbl'"
    using fill_cell_eq [OF d ij(1) ij(2), of g] empty by (simp add: tbl'_def c_def)
  have d': "dims n tbl'" unfolding tbl'_def by (rule set_cell_dims [OF d])
  have get: "tbl' ! i ! j = (if i = i0 \<and> j = j0 then c else tbl ! i ! j)" if "i < n" "j < n" for i j
    unfolding tbl'_def by (rule set_cell_get [OF d ij(3) ij(2) that])
  have diag: "\<forall>i<n. tbl' ! i ! i = d i"
  proof (intro allI impI)
    fix i assume i: "i < n"
    with ij have "\<not> (i = i0 \<and> i = j0)" by auto
    with get [OF i i] have "tbl' ! i ! i = tbl ! i ! i" by simp
    with inv i show "tbl' ! i ! i = d i" by (simp add: cyk_inv_def)
  qed
  have cand: "candidates g tbl' i j = candidates g tbl i j"
    if "i < j" "j < n" "j - i + 1 \<le> L" for i j
  proof (rule candidates_cong)
    fix k assume k: "i \<le> k" "k < j"
    with that have kn: "i < n" "k < n" "k + 1 < n" by auto
    from k that ij have "\<not> (i = i0 \<and> k = j0)" by auto
    with get [OF kn(1) kn(2)] have a: "tbl' ! i ! k = tbl ! i ! k" by simp
    from k that ij have "\<not> (k + 1 = i0 \<and> j = j0)" by auto
    with get [OF kn(3) that(2)] have b: "tbl' ! (k + 1) ! j = tbl ! (k + 1) ! j" by auto
    from a b show "tbl' ! i ! k = tbl ! i ! k \<and> tbl' ! (k + 1) ! j = tbl ! (k + 1) ! j" ..
  qed
  have cells: "\<forall>i j. i < j \<and> j < n \<longrightarrow>
         tbl' ! i ! j = (if filled L (Suc i0) i j then fold add_entry (candidates g tbl' i j) [] else [])"
  proof (intro allI impI)
    fix i j assume a: "i < j \<and> j < n"
    then have lt: "i < j" "j < n" "i < n" by auto
    show "tbl' ! i ! j = (if filled L (Suc i0) i j then fold add_entry (candidates g tbl' i j) [] else [])"
    proof (cases "i = i0 \<and> j = j0")
      case True
      with ij have f: "filled L (Suc i0) i j" by (simp add: filled_def)
      from True ij have "candidates g tbl' i j = candidates g tbl i j"
        by (intro cand) auto
      with True f get [OF lt(3) lt(2)] show ?thesis by (simp add: c_def)
    next
      case False
      with get [OF lt(3) lt(2)] have same: "tbl' ! i ! j = tbl ! i ! j" by simp
      from False lt ij have feq: "filled L (Suc i0) i j = filled L i0 i j"
        by (auto simp: filled_def)
      from inv a have old: "tbl ! i ! j = (if filled L i0 i j then fold add_entry (candidates g tbl i j) [] else [])"
        unfolding cyk_inv_def by blast
      show ?thesis
      proof (cases "filled L i0 i j")
        case True
        then have "j - i + 1 \<le> L" by (auto simp: filled_def)
        from cand [OF lt(1) lt(2) this] True old same feq show ?thesis by simp
      next
        case False
        with old same feq show ?thesis by simp
      qed
    qed
  qed
  from d' diag cells have "cyk_inv g n d L (Suc i0) tbl'" by (simp add: cyk_inv_def)
  with fc show ?thesis by (simp add: j0_def)
qed

lemma inv_fold_starts:
  assumes "cyk_inv g n d L 0 tbl" and "2 \<le> L" and "L \<le> n"
  shows "m \<le> n - L + 1 \<Longrightarrow>
     cyk_inv g n d L m (fold (\<lambda>i tbl. fill_cell g tbl i (i + L - 1)) [0..<m] tbl)"
proof (induction m)
  case 0
  with assms show ?case by simp
next
  case (Suc m)
  then have ih: "cyk_inv g n d L m (fold (\<lambda>i tbl. fill_cell g tbl i (i + L - 1)) [0..<m] tbl)"
    by simp
  from Suc.prems assms have "m + L - 1 < n" by simp
  from inv_step [OF ih assms(2) this] show ?case by simp
qed

lemma inv_fill_length:
  assumes "cyk_inv g n d L 0 tbl" and "2 \<le> L" and "L \<le> n"
  shows "cyk_inv g n d L (n - L + 1) (fill_length g n L tbl)"
  unfolding fill_length_def by (rule inv_fold_starts [OF assms]) simp

lemma inv_next_length:
  assumes "cyk_inv g n d L (n - L + 1) tbl" and "L \<le> n"
  shows "cyk_inv g n d (Suc L) 0 tbl"
proof -
  have "filled L (n - L + 1) i j = filled (Suc L) 0 i j" if "i < j" "j < n" for i j
    using that assms(2) by (auto simp: filled_def)
  with assms(1) show ?thesis by (simp add: cyk_inv_def)
qed

lemma inv_fold_lengths:
  assumes "cyk_inv g n d 2 0 tbl"
  shows "2 \<le> M \<Longrightarrow> M \<le> Suc n \<Longrightarrow> cyk_inv g n d M 0 (fold (fill_length g n) [2..<M] tbl)"
proof (induction M)
  case 0
  then show ?case by simp
next
  case (Suc M)
  show ?case
  proof (cases "M < 2")
    case True
    with Suc.prems have "Suc M = 2" by simp
    then have "[2..<Suc M] = []" by simp
    with assms \<open>Suc M = 2\<close> show ?thesis by (simp only: fold.simps id_apply)
  next
    case False
    then have M: "2 \<le> M" by simp
    with Suc have ih: "cyk_inv g n d M 0 (fold (fill_length g n) [2..<M] tbl)" by simp
    from Suc.prems have Mn: "M \<le> n" by simp
    from inv_next_length [OF inv_fill_length [OF ih M Mn] Mn] M show ?thesis by simp
  qed
qed

lemma inv_fill_all:
  assumes "cyk_inv g n d 2 0 tbl" and "1 \<le> n"
  shows "cyk_inv g n d (Suc n) 0 (fill_all g n tbl)"
  unfolding fill_all_def using inv_fold_lengths [OF assms(1), of "Suc n"] assms(2) by simp

lemma unary_iff: "(length r = 1 \<and> r ! 0 = tok) = (r = [tok])"
  by (cases r) auto

lemma diag_rule_eq: "diag_rule A tok r cell = (if r = [tok] then cell @ [Term A tok] else cell)"
  unfolding diag_rule_def unary_iff by (rule refl)

lemma fold_diag_rules:
  "fold (diag_rule A tok) rules cell = cell @ map (\<lambda>r. Term A tok) (filter (\<lambda>r. r = [tok]) rules)"
  by (induction rules arbitrary: cell) (simp_all add: diag_rule_eq)

lemma diag_cell_eq:
  "diag_cell g tok cell
     = cell @ concat (map (\<lambda>(A, rules). map (\<lambda>r. Term A tok) (filter (\<lambda>r. r = [tok]) rules)) g)"
  unfolding diag_cell_def
  by (induction g arbitrary: cell) (auto simp: fold_diag_rules)

lemma set_diag_cell:
  "set (diag_cell g tok []) = {Term A tok | A rules. (A, rules) \<in> set g \<and> [tok] \<in> set rules}"
  by (auto simp: diag_cell_eq)

lemma filter_eq_distinct:
  "distinct xs \<Longrightarrow> filter (\<lambda>r. r = x) xs = (if x \<in> set xs then [x] else [])"
  by (induction xs) auto

lemma matches_map_Term:
  "matches A (map (\<lambda>r. Term B tok) xs) = (if B = A then map (\<lambda>r. Term B tok) xs else [])"
  by (induction xs) (auto simp: matches_def)

lemma matches_diag_absent:
  "A \<notin> fst ` set g \<Longrightarrow>
     matches A (concat (map (\<lambda>(A, rules). map (\<lambda>r. Term A tok) (filter (\<lambda>r. r = [tok]) rules)) g)) = []"
proof (induction g)
  case Nil
  then show ?case by (simp add: matches_Nil)
next
  case (Cons p g)
  obtain B rules where p: "p = (B, rules)" by (cases p)
  with Cons.prems have "B \<noteq> A" "A \<notin> fst ` set g" by auto
  with Cons.IH p show ?case by (simp add: matches_append matches_map_Term)
qed

lemma matches_diag:
  assumes "distinct (map fst g)" and "\<forall>(A, rules)\<in>set g. distinct rules"
  shows "matches A (diag_cell g tok [])
           = (if [tok] \<in> set (get_rules g A) then [Term A tok] else [])"
  using assms
proof (induction g)
  case Nil
  then show ?case by (simp add: diag_cell_eq matches_Nil get_rules_def)
next
  case (Cons p g)
  obtain B rules where p: "p = (B, rules)" by (cases p)
  from Cons.prems p have dk: "distinct (map fst g)" and nk: "B \<notin> fst ` set g"
    and dr: "distinct rules" and drs: "\<forall>(A, rules)\<in>set g. distinct rules" by auto
  from Cons.IH [OF dk drs]
  have ih: "matches A (concat (map (\<lambda>(A, rules). map (\<lambda>r. Term A tok) (filter (\<lambda>r. r = [tok]) rules)) g))
      = (if [tok] \<in> set (get_rules g A) then [Term A tok] else [])"
    by (simp add: diag_cell_eq)
  show ?case
  proof (cases "B = A")
    case True
    with nk have "matches A (concat (map (\<lambda>(A, rules). map (\<lambda>r. Term A tok) (filter (\<lambda>r. r = [tok]) rules)) g)) = []"
      by (intro matches_diag_absent) simp
    with True p dr show ?thesis
      by (simp add: diag_cell_eq matches_append matches_map_Term filter_eq_distinct get_rules_def)
  next
    case False
    with p ih show ?thesis
      by (simp add: diag_cell_eq matches_append matches_map_Term get_rules_def)
  qed
qed

lemma dims_init: "dims n (init_table n)"
  by (simp add: dims_def init_table_def)

lemma init_cell: "i < n \<Longrightarrow> j < n \<Longrightarrow> init_table n ! i ! j = []"
  by (simp add: init_table_def)

lemma fill_diag_prefix:
  "length ts \<le> n \<Longrightarrow>
     dims n (fold (diag_step g) (enumerate 0 ts) (init_table n)) \<and>
     (\<forall>i<n. \<forall>j<n. fold (diag_step g) (enumerate 0 ts) (init_table n) ! i ! j
         = (if i = j \<and> i < length ts then diag_cell g (ts ! i) [] else []))"
proof (induction ts rule: rev_induct)
  case Nil
  then show ?case by (simp add: dims_init init_cell)
next
  case (snoc t ts)
  define tbl where "tbl = fold (diag_step g) (enumerate 0 ts) (init_table n)"
  define m where "m = length ts"
  from snoc.prems have m: "m < n" by (simp add: m_def)
  from snoc have d: "dims n tbl"
    and cells: "\<And>i j. i < n \<Longrightarrow> j < n \<Longrightarrow>
        tbl ! i ! j = (if i = j \<and> i < length ts then diag_cell g (ts ! i) [] else [])"
    by (simp_all add: tbl_def)
  from cells [OF m m] have e: "tbl ! m ! m = []" by (simp add: m_def)
  have "enumerate 0 (ts @ [t]) = enumerate 0 ts @ [(m, t)]"
    by (simp add: enumerate_append_eq m_def)
  then have "fold (diag_step g) (enumerate 0 (ts @ [t])) (init_table n) = diag_step g (m, t) tbl"
    by (simp add: tbl_def)
  also have "\<dots> = set_cell tbl m m (diag_cell g t [])"
    by (simp add: diag_step_def e)
  finally have f: "fold (diag_step g) (enumerate 0 (ts @ [t])) (init_table n)
             = set_cell tbl m m (diag_cell g t [])" .
  have "dims n (set_cell tbl m m (diag_cell g t []))" by (rule set_cell_dims [OF d])
  moreover have "set_cell tbl m m (diag_cell g t []) ! i ! j
         = (if i = j \<and> i < length (ts @ [t]) then diag_cell g ((ts @ [t]) ! i) [] else [])"
    if "i < n" "j < n" for i j
  proof (cases "i = m \<and> j = m")
    case True
    with set_cell_get [OF d m m that] show ?thesis by (simp add: m_def)
  next
    case False
    with set_cell_get [OF d m m that] cells [OF that] show ?thesis
      by (auto simp: m_def nth_append)
  qed
  ultimately show ?case unfolding f by blast
qed

lemma fill_diag_inv:
  "cyk_inv g (length tokens) (\<lambda>i. diag_cell g (tokens ! i) []) 2 0
     (fill_diag g tokens (init_table (length tokens)))"
proof -
  have eq: "fill_diag g tokens (init_table (length tokens))
      = fold (diag_step g) (enumerate 0 tokens) (init_table (length tokens))"
    by (simp add: fill_diag_def diag_step_def)
  have "\<not> filled 2 0 i j" if "i < j" for i j using that by (auto simp: filled_def)
  with fill_diag_prefix [of tokens "length tokens" g] show ?thesis
    unfolding eq cyk_inv_def by simp
qed

lemma run_cyk_inv:
  assumes "tokens \<noteq> []"
  shows "cyk_inv g (length tokens) (\<lambda>i. diag_cell g (tokens ! i) []) (Suc (length tokens)) 0
           (table (run_cyk g start_var tokens))"
proof -
  from assms have n: "1 \<le> length tokens" by (cases tokens) auto
  have "table (run_cyk g start_var tokens)
          = fill_all g (length tokens) (fill_diag g tokens (init_table (length tokens)))"
    using assms by (simp add: run_cyk_def Let_def)
  with inv_fill_all [OF fill_diag_inv n] show ?thesis by simp
qed

lemma run_cyk_diag:
  assumes "i < length tokens"
  shows "table (run_cyk g start_var tokens) ! i ! i = diag_cell g (tokens ! i) []"
proof -
  from assms have "tokens \<noteq> []" by auto
  from run_cyk_inv [OF this] assms show ?thesis by (simp add: cyk_inv_def)
qed

lemma run_cyk_cell:
  assumes "i < j" and "j < length tokens"
  shows "table (run_cyk g start_var tokens) ! i ! j
           = fold add_entry (candidates g (table (run_cyk g start_var tokens)) i j) []"
proof -
  from assms have ne: "tokens \<noteq> []" by auto
  have "filled (Suc (length tokens)) 0 i j" using assms by (auto simp: filled_def)
  with run_cyk_inv [OF ne, of g start_var] assms show ?thesis
    unfolding cyk_inv_def by simp
qed

lemma set_fold_add: "set (fold add_entry es cell) \<subseteq> set cell \<union> set es"
proof (induction es arbitrary: cell)
  case Nil
  then show ?case by simp
next
  case (Cons e es)
  have "set (add_entry e cell) \<subseteq> set cell \<union> {e}" by (auto simp: add_entry_def)
  with Cons.IH [of "add_entry e cell"] show ?case by auto
qed

lemma hd_matches_in: "matches B cell \<noteq> [] \<Longrightarrow> hd (matches B cell) \<in> set cell"
proof -
  assume "matches B cell \<noteq> []"
  then have "hd (matches B cell) \<in> set (matches B cell)" by (rule hd_in_set)
  then show ?thesis by (simp add: matches_def)
qed

lemma candidate_shape:
  assumes "e \<in> set (candidates g tbl i j)"
  shows "\<exists>A k l r. e = Bin A k l r \<and> i \<le> k \<and> k < j \<and> l \<in> set (tbl ! i ! k) \<and> r \<in> set (tbl ! (k + 1) ! j)"
proof -
  from assms obtain k where k: "k \<in> set [i..<j]" and "e \<in> set (cands_split g tbl i j k)"
    by (auto simp: candidates_def)
  then obtain A rules r where "r \<in> set rules"
    and e: "e \<in> set (cand_rule A k (tbl ! i ! k) (tbl ! (k + 1) ! j) r)"
    by (auto simp: cands_split_def)
  from e have "e = Bin A k (hd (matches (r ! 0) (tbl ! i ! k))) (hd (matches (r ! 1) (tbl ! (k + 1) ! j)))"
    and "matches (r ! 0) (tbl ! i ! k) \<noteq> []" and "matches (r ! 1) (tbl ! (k + 1) ! j) \<noteq> []"
    by (auto simp: cand_rule_def split: if_splits)
  with k hd_matches_in show ?thesis by auto
qed

lemma lv_leaf: "lv (Node nm None) = [nm]"
  by (simp add: lv_def)

lemma lv_node: "cc \<noteq> [] \<Longrightarrow> lv (Node nm (Some cc)) = concat (map lv cc)"
proof -
  assume ne: "cc \<noteq> []"
  have "concat (map leaf_labels (map flatten_tree cc)) = concat (map lv cc)"
    by (induction cc) (simp_all add: lv_def)
  with ne show ?thesis by (simp add: lv_def)
qed

lemma append_child_leaves:
  assumes "good child"
  shows "concat (map lv (append_child ntm child cs)) = concat (map lv cs) @ lv child"
    and "append_child ntm child cs \<noteq> []"
proof -
  obtain nm ch where c: "child = Node nm ch" by (cases child)
  show "concat (map lv (append_child ntm child cs)) = concat (map lv cs) @ lv child"
  proof (cases ch)
    case None
    with assms c show ?thesis by (simp add: append_child_def good_def)
  next
    case (Some cc)
    with assms c have "cc \<noteq> []" by (simp add: good_def)
    with Some c show ?thesis by (simp add: append_child_def lv_node)
  qed
  show "append_child ntm child cs \<noteq> []"
    using assms c by (cases ch) (auto simp: append_child_def good_def)
qed

lemma take_drop_split:
  assumes "i \<le> k" and "k < j"
  shows "take (k + 1 - i) (drop i xs) @ take (j + 1 - (k + 1)) (drop (k + 1) xs)
           = take (j + 1 - i) (drop i xs)"
proof -
  have "j + 1 - i = (k + 1 - i) + (j + 1 - (k + 1))" using assms by simp
  moreover have "drop (k + 1) xs = drop (k + 1 - i) (drop i xs)" using assms by simp
  ultimately show ?thesis by (simp only: take_add)
qed

lemma reconstruct_ok:
  assumes D: "\<And>i e. i < n \<Longrightarrow> e \<in> set (tbl ! i ! i) \<Longrightarrow>
                \<exists>A. e = Term A (tokens ! i) \<and> (map_of ntm A = None \<or> map_of ntm A = Some (tokens ! i))"
    and B: "\<And>i j e. i < j \<Longrightarrow> j < n \<Longrightarrow> e \<in> set (tbl ! i ! j) \<Longrightarrow>
                \<exists>A k l r. e = Bin A k l r \<and> i \<le> k \<and> k < j \<and> l \<in> set (tbl ! i ! k) \<and> r \<in> set (tbl ! (k + 1) ! j)"
    and dm: "dims n tbl" and n: "n = length tokens"
  shows "i \<le> j \<Longrightarrow> j < n \<Longrightarrow> e \<in> set (tbl ! i ! j) \<Longrightarrow>
     \<exists>t. reconstruct_tree tbl i j (entry_name e) ntm = Some (Inr t) \<and> good t \<and>
         lv t = map quote (take (j + 1 - i) (drop i tokens))"
proof (induction "j - i" arbitrary: i j e rule: less_induct)
  case less
  from less.prems dm have rng: "i < length tbl \<and> j < length (tbl ! i)" by (simp add: dims_def)
  from less.prems(3) have "matches (entry_name e) (tbl ! i ! j) \<noteq> []"
    by (auto simp: matches_def filter_empty_conv)
  then obtain ent rest where m: "matches (entry_name e) (tbl ! i ! j) = ent # rest"
    by (auto simp: neq_Nil_conv)
  then have "ent \<in> set (matches (entry_name e) (tbl ! i ! j))" by simp
  then have ent: "ent \<in> set (tbl ! i ! j)" and nm: "entry_name ent = entry_name e"
    by (auto simp: matches_def)
  show ?case
  proof (cases "i = j")
    case True
    with less.prems ent D [of i ent] obtain A where A: "ent = Term A (tokens ! i)"
      and ntm: "map_of ntm A = None \<or> map_of ntm A = Some (tokens ! i)" by auto
    from less.prems True n have "i < length tokens" by simp
    from Cons_nth_drop_Suc [OF this, symmetric] True
    have tk: "take (j + 1 - i) (drop i tokens) = [tokens ! i]" by simp
    from ntm show ?thesis
    proof
      assume none: "map_of ntm A = None"
      have "reconstruct_tree tbl i j (entry_name e) ntm
              = Some (Inr (Node A (Some [Node (quote (tokens ! i)) None])))"
        using rng m A none by (subst reconstruct_tree.simps) simp
      moreover have "good (Node A (Some [Node (quote (tokens ! i)) None]))" by (simp add: good_def)
      moreover have "lv (Node A (Some [Node (quote (tokens ! i)) None])) = [quote (tokens ! i)]"
        by (simp add: lv_node lv_leaf)
      ultimately show ?thesis using tk by simp
    next
      assume some: "map_of ntm A = Some (tokens ! i)"
      have "reconstruct_tree tbl i j (entry_name e) ntm = Some (Inr (Node (quote (tokens ! i)) None))"
        using rng m A some by (subst reconstruct_tree.simps) simp
      moreover have "good (Node (quote (tokens ! i)) None)"
        by (simp add: good_def startswith_X_def quote_def)
      moreover have "lv (Node (quote (tokens ! i)) None) = [quote (tokens ! i)]" by (simp add: lv_leaf)
      ultimately show ?thesis using tk by simp
    qed
  next
    case False
    with less.prems have ij: "i < j" by simp
    from B [OF ij less.prems(2) ent] obtain A k l r where E: "ent = Bin A k l r"
      and k: "i \<le> k" "k < j" and l: "l \<in> set (tbl ! i ! k)" and r: "r \<in> set (tbl ! (k + 1) ! j)"
      by blast
    from k less.prems have kn: "k < n" "k + 1 \<le> j" by auto
    have "k - i < j - i" using k by simp
    from less.hyps [OF this k(1) kn(1) l] obtain tl where
      tl: "reconstruct_tree tbl i k (entry_name l) ntm = Some (Inr tl)" "good tl"
          "lv tl = map quote (take (k + 1 - i) (drop i tokens))" by blast
    have "j - (k + 1) < j - i" using k by simp
    from less.hyps [OF this kn(2) less.prems(2) r] obtain tr where
      tr: "reconstruct_tree tbl (k + 1) j (entry_name r) ntm = Some (Inr tr)" "good tr"
          "lv tr = map quote (take (j + 1 - (k + 1)) (drop (k + 1) tokens))" by blast
    define cs where "cs = append_child ntm tr (append_child ntm tl [])"
    have rec: "reconstruct_tree tbl i j (entry_name e) ntm = Some (Inr (Node A (Some cs)))"
      using rng m E tl(1) tr(1) by (subst reconstruct_tree.simps) (simp add: cs_def)
    have ne: "cs \<noteq> []" unfolding cs_def by (rule append_child_leaves(2) [OF tr(2)])
    have "concat (map lv cs) = lv tl @ lv tr"
      unfolding cs_def by (simp add: append_child_leaves(1) [OF tr(2)] append_child_leaves(1) [OF tl(2)])
    also have "\<dots> = map quote (take (j + 1 - i) (drop i tokens))"
      unfolding tl(3) tr(3) map_append [symmetric] take_drop_split [OF k] ..
    finally have "lv (Node A (Some cs)) = map quote (take (j + 1 - i) (drop i tokens))"
      using ne by (simp add: lv_node)
    moreover from ne have "good (Node A (Some cs))" by (simp add: good_def)
    ultimately show ?thesis using rec by simp
  qed
qed

text \<open>
  C7. In the table \<open>run_cyk\<close> returns, every cell holds at most one entry for a variable
  \<open>A\<close>. On the diagonal it is the terminal entry, present when \<open>A\<close> has the rule
  \<open>tokens[i]\<close>. For a longer span it is the first entry for \<open>A\<close> in the list of all
  matching (split, rule) pairs, the splits taken from \<open>i\<close> upward and the rules in the
  order of the grammar. The grammar is a Grammar of the specification: its keys are
  distinct, as in any dictionary, and no rule is listed twice under a key.
\<close>

theorem C7_first_evidence_kept:
  assumes "distinct (map fst g)" and "\<forall>(A, rules)\<in>set g. distinct rules"
    and "i \<le> j" and "j < length tokens"
  shows "matches A (table (run_cyk g start_var tokens) ! i ! j) =
           (if i = j
            then (if [tokens ! i] \<in> set (get_rules g A) then [Term A (tokens ! i)] else [])
            else take 1 (matches A (candidates g (table (run_cyk g start_var tokens)) i j)))"
proof (cases "i = j")
  case True
  with assms(4) run_cyk_diag [of i tokens g start_var] matches_diag [OF assms(1,2)]
  show ?thesis by simp
next
  case False
  with assms have "i < j" by simp
  from run_cyk_cell [OF this assms(4)] False show ?thesis
    by (simp add: matches_fold_add matches_Nil)
qed

theorem C7_first_evidence_kept_witness:
  "matches (str ''S'')
     (table (run_cyk [(str ''S'', [[str ''A'', str ''B''], [str ''B'', str ''A'']]),
                      (str ''A'', [[str ''a'']]), (str ''B'', [[str ''a'']])]
               (str ''S'') [str ''a'', str ''a'']) ! 0 ! 1)
     = [Bin (str ''S'') 0 (Term (str ''A'') (str ''a'')) (Term (str ''B'') (str ''a''))]"
proof -
  define g :: grammar where "g = [(str ''S'', [[str ''A'', str ''B''], [str ''B'', str ''A'']]),
                      (str ''A'', [[str ''a'']]), (str ''B'', [[str ''a'']])]"
  define tokens where "tokens = [str ''a'', str ''a'']"
  have h1: "distinct (map fst g)" by (simp add: g_def str_def)
  have h2: "\<forall>(A, rules)\<in>set g. distinct rules" by (simp add: g_def str_def)
  have h3: "(0::nat) \<le> 1" by simp
  have h4: "1 < length tokens" by (simp add: tokens_def)
  have "matches (str ''S'') (table (run_cyk g (str ''S'') tokens) ! 0 ! 1)
          = take 1 (matches (str ''S'') (candidates g (table (run_cyk g (str ''S'') tokens)) 0 1))"
    using C7_first_evidence_kept [OF h1 h2 h3 h4, of "str ''S''" "str ''S''"] by simp
  also have "\<dots> = [Bin (str ''S'') 0 (Term (str ''A'') (str ''a'')) (Term (str ''B'') (str ''a''))]"
    unfolding g_def tokens_def by code_simp
  finally show ?thesis unfolding g_def tokens_def .
qed

text \<open>
  C6. The claim has the leaf labels, joined by single spaces, give back the input. The
  label of a leaf is the token between two double quotes: for the grammar \<open>S \<rightarrow> a\<close>
  and the input \<open>a\<close> the only leaf is labelled \<open>"a"\<close>, three characters.
\<close>

theorem C6_leaf_label_is_quoted:
  "success (run_cyk [(str ''S'', [[str ''a'']])] (str ''S'') [str ''a''])
   \<and> reconstruct_tree (table (run_cyk [(str ''S'', [[str ''a'']])] (str ''S'') [str ''a'']))
         0 0 (str ''S'') []
       = Some (Inr (Node (str ''S'') (Some [Node [34, 97, 34] None])))
   \<and> join_space (leaf_labels (flatten_tree (Node (str ''S'') (Some [Node [34, 97, 34] None]))))
       \<noteq> join_space [str ''a'']"
  by code_simp

text \<open>
  C6, as the code has it. Whenever \<open>run_cyk\<close> reports success, \<open>reconstruct_tree\<close>
  over the full span returns a tree, and the leaf labels of the flattened tree are, in
  order, the input tokens, each between two double quotes. The translation table is one
  that belongs to the grammar: a key of \<open>nonterm_map\<close> that has a one-symbol rule in the
  grammar is mapped to that symbol.
\<close>

theorem C6_leaves_are_quoted_tokens:
  assumes acc: "success (run_cyk g start_var tokens)"
    and wrap: "\<And>A rules tok t. (A, rules) \<in> set g \<Longrightarrow> [tok] \<in> set rules \<Longrightarrow>
                 map_of ntm A = Some t \<Longrightarrow> t = tok"
  shows "\<exists>t. reconstruct_tree (table (run_cyk g start_var tokens)) 0 (length tokens - 1) start_var ntm
                = Some (Inr t) \<and>
             leaf_labels (flatten_tree t) = map quote tokens"
proof -
  define n where "n = length tokens"
  define tbl where "tbl = table (run_cyk g start_var tokens)"
  from acc have ne: "tokens \<noteq> []" by (auto simp: run_cyk_def Let_def split: if_splits)
  then have n1: "0 < n" by (simp add: n_def)
  from run_cyk_inv [OF ne, of g start_var] have dm: "dims n tbl"
    by (simp add: cyk_inv_def n_def tbl_def)
  have D: "\<exists>A. e = Term A (tokens ! i) \<and> (map_of ntm A = None \<or> map_of ntm A = Some (tokens ! i))"
    if "i < n" "e \<in> set (tbl ! i ! i)" for i e
  proof -
    from that have "e \<in> set (diag_cell g (tokens ! i) [])"
      by (simp add: tbl_def n_def run_cyk_diag)
    then obtain A rules where e: "e = Term A (tokens ! i)" and "(A, rules) \<in> set g"
      and "[tokens ! i] \<in> set rules" by (auto simp: set_diag_cell)
    with wrap have "map_of ntm A = None \<or> map_of ntm A = Some (tokens ! i)"
      by (cases "map_of ntm A") auto
    with e show ?thesis by simp
  qed
  have B: "\<exists>A k l r. e = Bin A k l r \<and> i \<le> k \<and> k < j \<and> l \<in> set (tbl ! i ! k) \<and> r \<in> set (tbl ! (k + 1) ! j)"
    if "i < j" "j < n" "e \<in> set (tbl ! i ! j)" for i j e
  proof -
    from that have "e \<in> set (fold add_entry (candidates g tbl i j) [])"
      using run_cyk_cell [of i j tokens g start_var] by (simp add: tbl_def n_def)
    with set_fold_add have "e \<in> set (candidates g tbl i j)" by fastforce
    then show ?thesis by (rule candidate_shape)
  qed
  from acc ne obtain e where e: "e \<in> set (tbl ! 0 ! (n - 1))" and nm: "entry_name e = start_var"
    by (auto simp: run_cyk_def Let_def list_ex_iff tbl_def n_def)
  from n1 have lt: "n - 1 < n" by simp
  from reconstruct_ok [of n tbl tokens ntm 0 "n - 1" e, OF D B dm n_def _ lt e]
  obtain t where "reconstruct_tree tbl 0 (n - 1) (entry_name e) ntm = Some (Inr t)"
    and "lv t = map quote (take (n - 1 + 1 - 0) (drop 0 tokens))" by auto
  with nm n1 show ?thesis by (auto simp: lv_def tbl_def n_def)
qed

theorem C6_leaves_are_quoted_tokens_witness:
  "\<exists>t. reconstruct_tree
          (table (run_cyk [(str ''S'', [[str ''X1'', str ''B'']]), (str ''X1'', [[str ''a'']]),
                           (str ''B'', [[str ''b'']])] (str ''S'') [str ''a'', str ''b'']))
          0 (length [str ''a'', str ''b''] - 1) (str ''S'') [(str ''X1'', str ''a'')]
        = Some (Inr t) \<and>
       leaf_labels (flatten_tree t) = map quote [str ''a'', str ''b'']"
proof (rule C6_leaves_are_quoted_tokens)
  show "success (run_cyk [(str ''S'', [[str ''X1'', str ''B'']]), (str ''X1'', [[str ''a'']]),
                           (str ''B'', [[str ''b'']])] (str ''S'') [str ''a'', str ''b''])"
    by code_simp
next
  fix A rules tok t
  assume "(A, rules) \<in> set [(str ''S'', [[str ''X1'', str ''B'']]), (str ''X1'', [[str ''a'']]),
                           (str ''B'', [[str ''b'']])]"
    and "[tok] \<in> set rules" and "map_of [(str ''X1'', str ''a'')] A = Some t"
  then show "t = tok" by (auto simp: str_def split: if_splits)
qed

text \<open>
  C8. The claim has a subtree spliced exactly when its root is a binarization-chain
  variable, never when it is a variable of the original grammar, also one whose name
  begins with X. \<open>append_child\<close> splices every child whose name starts with X and is
  no key of \<open>nonterm_map\<close>: for the grammar \<open>S \<rightarrow> X Y\<close>, \<open>X \<rightarrow> a\<close>, \<open>Y \<rightarrow> b\<close>
  and the input \<open>a b\<close> the node of the original variable \<open>X\<close> is gone from the tree,
  its leaf hanging from the root.
\<close>

theorem C8_original_X_variable_spliced:
  "convert_to_cnf ascii_isupper
     [(str ''S'', [[str ''X'', str ''Y'']]), (str ''X'', [[str ''a'']]), (str ''Y'', [[str ''b'']])]
     (str ''S'')
   = Inr \<lparr>r_grammar = [(str ''S'', [[str ''X'', str ''Y''], [str ''a''], [str ''b'']]),
                       (str ''X'', [[str ''a'']]), (str ''Y'', [[str ''b'']]),
                       (str ''S'' @ [39], [[eps], [str ''X'', str ''Y'']])],
          r_start_var = str ''S'' @ [39], r_term_map = [], r_nonterm_map = []\<rparr>
   \<and> reconstruct_tree
       (table (run_cyk [(str ''S'', [[str ''X'', str ''Y''], [str ''a''], [str ''b'']]),
                        (str ''X'', [[str ''a'']]), (str ''Y'', [[str ''b'']]),
                        (str ''S'' @ [39], [[eps], [str ''X'', str ''Y'']])]
                 (str ''S'' @ [39]) [str ''a'', str ''b'']))
       0 1 (str ''S'' @ [39]) []
     = Some (Inr (Node (str ''S'' @ [39])
                   (Some [Node (quote (str ''a'')) None,
                          Node (str ''Y'') (Some [Node (quote (str ''b'')) None])])))"
  by code_simp

section \<open>More properties of the CNF converter\<close>

text \<open>
  C3. The claim has an epsilon rule only under the new start variable, and only when the
  original start variable derives the empty string. For \<open>S \<rightarrow> a\<close> the converter
  introduces \<open>S'\<close> with \<open>S' \<rightarrow> \<epsilon>\<close> although \<open>S\<close> is not nullable in the sense
  of the specification (the scan for nullable variables ignores terminals). For
  \<open>S \<rightarrow> S'' | S' | \<epsilon>\<close>, \<open>S' \<rightarrow> a\<close>, where the validator takes \<open>S''\<close> for a
  terminal, the new start variable is named \<open>S''\<close> and its epsilon rule is copied into
  the original variable \<open>S\<close>.
\<close>

theorem C3_epsilon_rule_misplaced:
  "convert_to_cnf ascii_isupper [(str ''S'', [[str ''a'']])] (str ''S'')
     = Inr \<lparr>r_grammar = [(str ''S'', [[str ''a'']]), (str ''S'' @ [39], [[eps], [str ''a'']])],
            r_start_var = str ''S'' @ [39], r_term_map = [], r_nonterm_map = []\<rparr>
   \<and> \<not> nullable_spec ascii_isupper [(str ''S'', [[str ''a'']])] (str ''S'')
   \<and> convert_to_cnf ascii_isupper
         [(str ''S'', [[str ''S'' @ [39, 39]], [str ''S'' @ [39]], [eps]]), (str ''S'' @ [39], [[str ''a'']])]
         (str ''S'')
     = Inr \<lparr>r_grammar = [(str ''S'', [[eps], [str ''a'']]), (str ''S'' @ [39], [[str ''a'']]),
                         (str ''S'' @ [39, 39], [[eps]])],
            r_start_var = str ''S'' @ [39, 39], r_term_map = [], r_nonterm_map = []\<rparr>"
proof (intro conjI)
  show "\<not> nullable_spec ascii_isupper [(str ''S'', [[str ''a'']])] (str ''S'')"
  proof
    assume "nullable_spec ascii_isupper [(str ''S'', [[str ''a'']])] (str ''S'')"
    then show False
      by cases (auto simp: str_def eps_def is_variable_def ascii_isupper_def)
  qed
qed code_simp+

theorem C3_epsilon_rule_misplaced_witness:
  "\<not> isl (convert_to_cnf ascii_isupper [(str ''S'', [[str ''a'']])] (str ''S''))"
  using C3_epsilon_rule_misplaced by simp

section \<open>Properties of the validator\<close>
















section \<open>Properties of the application\<close>

text \<open>
  C4. The claim has the five variables unchanged whenever the request does not succeed.
  \<open>set_grammar\<close> reads the key \<open>start\<close> of a dictionary whose key is \<open>start_var\<close>:
  on a valid grammar the KeyError is raised after \<open>GLOBAL_ORIGINAL_CFG\<close> and
  \<open>GLOBAL_CNF\<close> have been assigned, and the response reports a failure.
\<close>

theorem C4_partial_update:
  "set_grammar ascii_isupper ascii_isspace (\<lambda>xs. xs)
     \<lparr>GLOBAL_ORIGINAL_CFG = None, GLOBAL_CNF = None, GLOBAL_START = None,
      GLOBAL_TERM_MAP = None, GLOBAL_NONTERM_MAP = None\<rparr>
     (str ''S'') (JList [JDict [(str ''lhs'', JStr (str ''S'')), (str ''rhs'', JStr (str ''a b''))]])
   = (\<lparr>GLOBAL_ORIGINAL_CFG = Some [(str ''S'', [[str ''a'', str ''b'']])],
       GLOBAL_CNF = Some (VGrammar [(str ''S'', [[str ''X1'', str ''X2'']]),
                                    (str ''S'' @ [39], [[eps], [str ''X1'', str ''X2'']]),
                                    (str ''X1'', [[str ''a'']]), (str ''X2'', [[str ''b'']])]),
       GLOBAL_START = None, GLOBAL_TERM_MAP = None, GLOBAL_NONTERM_MAP = None\<rparr>, False)"
  by code_simp

end
